theory Spec2Isabelle
  imports Main "HOL-Library.Sublist"
begin

section \<open>Strings as the TypeScript source uses them\<close>

text \<open>
  A JavaScript string is modelled as a \<open>string\<close> (a list of characters). The source
  only ever cuts strings at the character \<open>/\<close>, so the encoding of other characters
  plays no part.
\<close>

text \<open>\<open>s.split(c)\<close> for a one-character separator: the empty string gives one
  empty part, and \<open>n\<close> separators give \<open>n + 1\<close> parts.\<close>

fun js_split :: "char \<Rightarrow> string \<Rightarrow> string list" where
  "js_split c [] = [[]]"
| "js_split c (x # xs) =
     (if x = c then [] # js_split c xs
      else (case js_split c xs of [] \<Rightarrow> [[x]] | w # ws \<Rightarrow> (x # w) # ws))"

text \<open>\<open>parts.join(sep)\<close>: the empty array gives the empty string.\<close>

fun js_join :: "string \<Rightarrow> string list \<Rightarrow> string" where
  "js_join sep [] = []"
| "js_join sep [x] = x"
| "js_join sep (x # y # ys) = x @ sep @ js_join sep (y # ys)"

text \<open>\<open>s.startsWith(p)\<close> and \<open>s.endsWith(p)\<close>.\<close>

definition startsWith :: "string \<Rightarrow> string \<Rightarrow> bool" where
  "startsWith s p = (take (length p) s = p)"

definition endsWith :: "string \<Rightarrow> string \<Rightarrow> bool" where
  "endsWith s p = (length p \<le> length s \<and> drop (length s - length p) s = p)"

text \<open>\<open>parts.filter(Boolean)\<close> on an array of strings drops the empty strings.\<close>

definition filterBoolean :: "string list \<Rightarrow> string list" where
  "filterBoolean parts = filter (\<lambda>p. p \<noteq> []) parts"

text \<open>\<open>path.split('/').filter(Boolean)\<close>, which the source calls \<open>pathParts\<close>.\<close>

definition pathParts :: "string \<Rightarrow> string list" where
  "pathParts path = filterBoolean (js_split CHR ''/'' path)"

section \<open>The object store behind the S3 client\<close>

text \<open>
  \<open>cloudflare-r2.ts\<close> talks to the bucket through \<open>s3Client.send\<close> and
  \<open>getSignedUrl\<close>. The bucket is modelled as an explicit state: the stored objects
  (key and byte size, one entry per key), the log of the calls made so far, the number of
  keys one \<open>ListObjectsV2\<close> response holds at most (the source passes no
  \<open>MaxKeys\<close> and never reads \<open>IsTruncated\<close> or a continuation token, so a
  listing is one page), and which calls fail: \<open>failing s log c\<close> says that call
  \<open>c\<close>, issued after the calls \<open>log\<close>, throws.
\<close>

datatype call =
    ListObjectsV2 string
  | PutObject string
  | GetSignedUrl string
  | DeleteObject string

datatype error = FileTooLarge | StoreError

record bucket =
  objects :: "(string \<times> nat) list"
  calls :: "call list"
  maxKeys :: nat
  failing :: "call list \<Rightarrow> call \<Rightarrow> bool"

text \<open>Storing under a key replaces the object already there, or adds one.\<close>

fun store_object :: "string \<Rightarrow> nat \<Rightarrow> (string \<times> nat) list \<Rightarrow> (string \<times> nat) list" where
  "store_object k n [] = [(k, n)]"
| "store_object k n ((k', n') # os) =
     (if k' = k then (k, n) # os else (k', n') # store_object k n os)"

definition logCall :: "call \<Rightarrow> bucket \<Rightarrow> bucket" where
  "logCall c s = s\<lparr>calls := calls s @ [c]\<rparr>"

text \<open>\<open>s3Client.send(new PutObjectCommand({Key, Body, ...}))\<close>.\<close>

definition sendPut :: "string \<Rightarrow> nat \<Rightarrow> bucket \<Rightarrow> (error + unit) \<times> bucket" where
  "sendPut k n s =
     (if failing s (calls s) (PutObject k) then (Inl StoreError, logCall (PutObject k) s)
      else (Inr (), (logCall (PutObject k) s)\<lparr>objects := store_object k n (objects s)\<rparr>))"

text \<open>\<open>getSignedUrl(s3Client, new GetObjectCommand({Key}), ...)\<close>; the URL itself is
  opaque and is not part of the model.\<close>

definition getSignedUrl :: "string \<Rightarrow> bucket \<Rightarrow> (error + unit) \<times> bucket" where
  "getSignedUrl k s =
     (if failing s (calls s) (GetSignedUrl k) then (Inl StoreError, logCall (GetSignedUrl k) s)
      else (Inr (), logCall (GetSignedUrl k) s))"

text \<open>\<open>s3Client.send(new DeleteObjectCommand({Key}))\<close>: deleting an absent key is
  not an error.\<close>

definition sendDelete :: "string \<Rightarrow> bucket \<Rightarrow> (error + unit) \<times> bucket" where
  "sendDelete k s =
     (if failing s (calls s) (DeleteObject k) then (Inl StoreError, logCall (DeleteObject k) s)
      else (Inr (), (logCall (DeleteObject k) s)
              \<lparr>objects := filter (\<lambda>(k', n). k' \<noteq> k) (objects s)\<rparr>))"

text \<open>\<open>s3Client.send(new ListObjectsV2Command({Prefix}))\<close> without a delimiter: the
  \<open>Contents\<close> of the response are the objects whose key starts with the prefix, at
  most \<open>maxKeys\<close> of them.\<close>

definition sendList :: "string \<Rightarrow> bucket \<Rightarrow> (error + (string \<times> nat) list) \<times> bucket" where
  "sendList pre s =
     (if failing s (calls s) (ListObjectsV2 pre) then (Inl StoreError, logCall (ListObjectsV2 pre) s)
      else (Inr (take (maxKeys s) (filter (\<lambda>(k, n). startsWith k pre) (objects s))),
            logCall (ListObjectsV2 pre) s))"

text \<open>Two failure behaviours used in examples: no call fails, or exactly the calls
  equal to a given one fail.\<close>

definition noFailure :: "call list \<Rightarrow> call \<Rightarrow> bool" where
  "noFailure log c = False"


section \<open>Keys and logical paths\<close>

text \<open>
  The source has no codec functions; it writes the two conversions inline.
  \<open>toKey\<close> is the expression bound to \<open>formattedPath\<close> in \<open>uploadFile\<close>
  (\<open>folderPath === '/' ? '' : (folderPath.startsWith('/') ? folderPath.slice(1) : folderPath)\<close>,
  the same expression as \<open>prefix\<close> in \<open>listFiles\<close>); \<open>toPath\<close> is the
  \<open>'/' + ...\<close> of \<open>listFiles\<close> and the \<open>`/${currentPath}`\<close> of
  \<open>buildFolderStructure\<close>.
\<close>

definition toKey :: "string \<Rightarrow> string" where
  "toKey folderPath =
     (if folderPath = ''/'' then []
      else if startsWith folderPath ''/'' then drop 1 folderPath else folderPath)"

definition toPath :: "string \<Rightarrow> string" where
  "toPath k = ''/'' @ k"

section \<open>Uploading one file\<close>

definition FILE_SIZE_LIMIT :: nat where
  "FILE_SIZE_LIMIT = 10 * 1024 * 1024"

text \<open>A browser \<open>File\<close>: its name and its size in bytes.\<close>

record File =
  file_name :: string
  file_size :: nat

text \<open>\<open>FileMetadata\<close> without the presigned URL and the upload date, which come
  from the signer and the clock.\<close>

record FileMetadata =
  name :: string
  publicUrl :: string
  size_bytes :: nat
  folderPath :: string
  fileKey :: string
  isFolder :: bool

definition isValidFile :: "string \<Rightarrow> nat \<Rightarrow> bool" where
  "isValidFile filename fileSize =
     (if filename = ''.keep'' then False
      else if fileSize > 0 \<and> fileSize > FILE_SIZE_LIMIT then False
      else True)"

text \<open>The key under which \<open>uploadFile\<close> stores a file:
  \<open>formattedPath ? `${formattedPath}/${file.name}` : file.name\<close>.\<close>

definition uploadKey :: "string \<Rightarrow> string \<Rightarrow> string" where
  "uploadKey folder filename =
     (let formattedPath = toKey folder
      in if formattedPath \<noteq> [] then formattedPath @ ''/'' @ filename else filename)"

text \<open>\<open>uploadFile\<close>; the \<open>Error\<close> it throws for a file over the limit is
  \<open>FileTooLarge\<close>, and whatever the client throws is \<open>StoreError\<close>.\<close>

definition uploadFile :: "File \<Rightarrow> string \<Rightarrow> bucket \<Rightarrow> (error + FileMetadata) \<times> bucket" where
  "uploadFile file folder s =
     (let isFolderMarker = (file_name file = ''.keep'') in
      if \<not> isFolderMarker \<and> file_size file > FILE_SIZE_LIMIT then (Inl FileTooLarge, s)
      else
        let key = uploadKey folder (file_name file)
        in case sendPut key (file_size file) s of
             (Inl e, s1) \<Rightarrow> (Inl e, s1)
           | (Inr u, s1) \<Rightarrow>
               (case getSignedUrl key s1 of
                  (Inl e, s2) \<Rightarrow> (Inl e, s2)
                | (Inr u', s2) \<Rightarrow>
                    (Inr \<lparr>name = file_name file,
                          publicUrl = ''https://files.careerweb.org/'' @ key,
                          size_bytes = file_size file,
                          folderPath = folder,
                          fileKey = key,
                          isFolder = False\<rparr>, s2)))"

section \<open>Deleting\<close>

definition deleteFile :: "string \<Rightarrow> bucket \<Rightarrow> (error + unit) \<times> bucket" where
  "deleteFile k s = sendDelete k s"

text \<open>The loop of \<open>deleteFolder\<close> over \<open>Contents\<close>: an item without a key is
  skipped, and the first failing delete ends the loop with its error.\<close>

fun deleteEach :: "(string \<times> nat) list \<Rightarrow> bucket \<Rightarrow> (error + unit) \<times> bucket" where
  "deleteEach [] s = (Inr (), s)"
| "deleteEach ((k, n) # items) s =
     (if k = [] then deleteEach items s
      else (case deleteFile k s of
              (Inl e, s1) \<Rightarrow> (Inl e, s1)
            | (Inr u, s1) \<Rightarrow> deleteEach items s1))"

definition folderPrefix :: "string \<Rightarrow> string" where
  "folderPrefix folder =
     (let normalizedPath = (if endsWith folder ''/'' then folder else folder @ ''/'')
      in if startsWith normalizedPath ''/'' then drop 1 normalizedPath else normalizedPath)"

definition deleteFolder :: "string \<Rightarrow> bucket \<Rightarrow> (error + unit) \<times> bucket" where
  "deleteFolder folder s =
     (case sendList (folderPrefix folder) s of
        (Inl e, s1) \<Rightarrow> (Inl e, s1)
      | (Inr contents, s1) \<Rightarrow>
          (if contents = [] then (Inr (), s1) else deleteEach contents s1))"

section \<open>The delete handler of the page\<close>

text \<open>
  The folder tree of \<open>page.tsx\<close>: \<open>interface Folder { name; path; children }\<close>.
  The name is optional in the model because \<open>buildFolderStructure\<close> reads it as
  \<open>pathParts[pathParts.length - 1]\<close>, which is \<open>undefined\<close> on an empty array.
\<close>

datatype Folder = Folder (folder_name: "string option") (folder_path: string) (children: "Folder list")

text \<open>The toasts the handlers show, one constructor per message of the source.\<close>

datatype toast =
    CannotDeleteRoot
  | FolderDeleted "string option"
  | FailedToDeleteFolder
  | AllFilesExceedLimit
  | FilesSkipped nat
  | FilesUploaded nat
  | UploadFailed

text \<open>
  \<open>handleDeleteFolder\<close>: the guard on the root, the confirmation dialog (its answer
  is the argument \<open>confirmed\<close>), then \<open>deleteFolder\<close>. The updates of the React
  state that follow a successful delete do not touch the bucket and are left out.
\<close>

definition handleDeleteFolder :: "Folder \<Rightarrow> bool \<Rightarrow> bucket \<Rightarrow> toast option \<times> bucket" where
  "handleDeleteFolder folder confirmed s =
     (if folder_path folder = ''/'' then (Some CannotDeleteRoot, s)
      else if \<not> confirmed then (None, s)
      else (case deleteFolder (folder_path folder) s of
              (Inl e, s1) \<Rightarrow> (Some FailedToDeleteFolder, s1)
            | (Inr u, s1) \<Rightarrow> (Some (FolderDeleted (folder_name folder)), s1)))"

section \<open>Uploading several files\<close>




section \<open>Uploading a dropped folder\<close>

text \<open>A \<open>FileSystemEntry\<close>: a file, or a directory with its name and the entries
  that \<open>readEntries\<close> delivers. Reading an entry is taken to succeed.\<close>

datatype Entry = FileEntry File | DirectoryEntry string "Entry list"

definition markerFile :: File where
  "markerFile = \<lparr>file_name = ''.keep'', file_size = 0\<rparr>"

text \<open>The first loop of \<open>processDirectoryEntries\<close>: the file entries of one
  directory. A failed upload is logged and the loop goes on.\<close>

fun uploadFileEntries ::
  "Entry list \<Rightarrow> string \<Rightarrow> FileMetadata list \<times> bucket \<Rightarrow> FileMetadata list \<times> bucket" where
  "uploadFileEntries [] currentPath st = st"
| "uploadFileEntries (FileEntry file # entries) currentPath (results, s) =
     (if file_size file \<le> FILE_SIZE_LIMIT \<or> file_name file = ''.keep''
      then (case uploadFile file currentPath s of
              (Inr metadata, s1) \<Rightarrow> uploadFileEntries entries currentPath (results @ [metadata], s1)
            | (Inl e, s1) \<Rightarrow> uploadFileEntries entries currentPath (results, s1))
      else uploadFileEntries entries currentPath (results, s))"
| "uploadFileEntries (DirectoryEntry subFolderName subEntries # entries) currentPath st =
     uploadFileEntries entries currentPath st"

text \<open>The loop over the parts of the path of a subfolder, which puts a marker at every
  level of that path; \<open>buildPath\<close> starts empty.\<close>

fun ensureMarkers ::
  "string \<Rightarrow> string list \<Rightarrow> FileMetadata list \<times> bucket \<Rightarrow> FileMetadata list \<times> bucket" where
  "ensureMarkers buildPath [] st = st"
| "ensureMarkers buildPath (part # parts) (results, s) =
     (let buildPath' = (if buildPath \<noteq> [] then buildPath @ ''/'' @ part else ''/'' @ part) in
      case uploadFile markerFile buildPath' s of
        (Inr markerMetadata, s1) \<Rightarrow> ensureMarkers buildPath' parts (results @ [markerMetadata], s1)
      | (Inl e, s1) \<Rightarrow> ensureMarkers buildPath' parts (results, s1))"

text \<open>\<open>processDirectoryEntries\<close>: first the files of the directory, then its
  subdirectories, each after the markers of its path.\<close>

fun processDirectoryEntries ::
  "Entry \<Rightarrow> string \<Rightarrow> FileMetadata list \<times> bucket \<Rightarrow> FileMetadata list \<times> bucket"
and processSubdirectories ::
  "Entry list \<Rightarrow> string \<Rightarrow> FileMetadata list \<times> bucket \<Rightarrow> FileMetadata list \<times> bucket" where
  "processDirectoryEntries (FileEntry file) currentPath st = st"
| "processDirectoryEntries (DirectoryEntry folderName entries) currentPath st =
     processSubdirectories entries currentPath (uploadFileEntries entries currentPath st)"
| "processSubdirectories [] currentPath st = st"
| "processSubdirectories (FileEntry file # entries) currentPath st =
     processSubdirectories entries currentPath st"
| "processSubdirectories (DirectoryEntry subFolderName subEntries # entries) currentPath st =
     (let subFolderPath = currentPath @ ''/'' @ subFolderName;
          st1 = ensureMarkers [] (pathParts subFolderPath) st;
          st2 = processDirectoryEntries (DirectoryEntry subFolderName subEntries) subFolderPath st1
      in processSubdirectories entries currentPath st2)"

definition uploadFolder :: "Entry \<Rightarrow> string \<Rightarrow> bucket \<Rightarrow> FileMetadata list \<times> bucket" where
  "uploadFolder folderEntry baseFolderPath s =
     (case folderEntry of
        FileEntry file \<Rightarrow> ([], s)
      | DirectoryEntry folderName entries \<Rightarrow>
          let mainFolderPath = (if baseFolderPath = ''/'' then ''/'' @ folderName
                                else baseFolderPath @ ''/'' @ folderName);
              st = (case uploadFile markerFile mainFolderPath s of
                      (Inr markerMetadata, s1) \<Rightarrow> ([markerMetadata], s1)
                    | (Inl e, s1) \<Rightarrow> ([], s1))
          in processDirectoryEntries folderEntry mainFolderPath st)"

section \<open>Listing the bucket from the root\<close>

text \<open>
  The loop over \<open>parts[0 .. length - 2]\<close> shared by \<open>listFiles\<close> and
  \<open>buildFolderStructure\<close>: empty parts are skipped, \<open>path\<close> grows by one part at
  a time, and every value of \<open>path\<close> is recorded.
\<close>

fun parentChain :: "string \<Rightarrow> string list \<Rightarrow> string list" where
  "parentChain path [] = []"
| "parentChain path (part # parts) =
     (if part = [] then parentChain path parts
      else (let path' = (if path \<noteq> [] then path @ ''/'' @ part else part)
            in path' # parentChain path' parts))"

text \<open>The loop run on the parts of a key, from the empty \<open>path\<close>.\<close>

definition parentPaths :: "string \<Rightarrow> string list" where
  "parentPaths key = parentChain [] (butlast (js_split CHR ''/'' key))"

text \<open>\<open>Set.add\<close> on an insertion-ordered set kept as a list.\<close>

definition setAdd :: "'a \<Rightarrow> 'a list \<Rightarrow> 'a list" where
  "setAdd x xs = (if x \<in> set xs then xs else xs @ [x])"

text \<open>\<open>s.lastIndexOf(c)\<close>, with \<open>None\<close> for \<open>-1\<close>.\<close>

fun lastIndexOf :: "char \<Rightarrow> string \<Rightarrow> nat option" where
  "lastIndexOf c [] = None"
| "lastIndexOf c (x # xs) =
     (case lastIndexOf c xs of
        Some i \<Rightarrow> Some (Suc i)
      | None \<Rightarrow> (if x = c then Some 0 else None))"

text \<open>\<open>fileKey.split('/').pop() || fileKey\<close>.\<close>

definition baseName :: "string \<Rightarrow> string" where
  "baseName k = (let l = last (js_split CHR ''/'' k) in if l = [] then k else l)"

text \<open>
  The body of \<open>listFiles('/')\<close> after its two list calls, as a function of the
  \<open>CommonPrefixes\<close> of the delimited response and the \<open>Contents\<close> of the
  undelimited one (an absent array is the empty list: both give the same result).
\<close>

definition folderObject :: "string \<Rightarrow> FileMetadata" where
  "folderObject fp =
     (let pathParts = filterBoolean (js_split CHR ''/'' fp);
          folderName = (if pathParts = [] then [] else last pathParts)
      in \<lparr>name = folderName,
          publicUrl = ''https://files.careerweb.org'' @ fp,
          size_bytes = 0,
          folderPath = ''/'' @ js_join ''/'' (butlast pathParts),
          fileKey = fp,
          isFolder = True\<rparr>)"

definition processedFile :: "string \<times> nat \<Rightarrow> FileMetadata option" where
  "processedFile item =
     (case item of (key, n) \<Rightarrow>
        if baseName key = ''.keep'' then None
        else Some \<lparr>name = baseName key,
                   publicUrl = ''https://files.careerweb.org/'' @ key,
                   size_bytes = n,
                   folderPath = ''/'' @ (case lastIndexOf CHR ''/'' key of
                                            Some i \<Rightarrow> take i key | None \<Rightarrow> []),
                   fileKey = key,
                   isFolder = False\<rparr>)"

definition folderPlaceholder :: "string \<Rightarrow> FileMetadata option" where
  "folderPlaceholder folderKey =
     (if endsWith folderKey ''/''
      then (let parts = filterBoolean (js_split CHR ''/'' folderKey);
                folderName = (if parts = [] then [] else last parts)
            in Some \<lparr>name = folderName,
                     publicUrl = ''https://files.careerweb.org/'' @ folderKey,
                     size_bytes = 0,
                     folderPath = ''/'',
                     fileKey = folderKey,
                     isFolder = True\<rparr>)
      else None)"

definition listFilesRoot :: "string list \<Rightarrow> (string \<times> nat) list \<Rightarrow> FileMetadata list" where
  "listFilesRoot commonPrefixes contents =
     (let folderPaths =
            fold (\<lambda>item acc.
                    fold setAdd (map (\<lambda>path. ''/'' @ path @ ''/'') (parentPaths (fst item))) acc)
              contents [];
          folderObjects = map folderObject folderPaths;
          processedFiles = map processedFile contents;
          allObjects = folderObjects @ List.map_filter id processedFiles;
          folderPlaceholders = List.map_filter folderPlaceholder commonPrefixes
      in folderPlaceholders @ allObjects)"

section \<open>The files of the selected folder\<close>


section \<open>Building the folder tree\<close>

text \<open>
  \<open>buildFolderStructure\<close> keeps its \<open>Folder\<close> objects in \<open>folderMap\<close> and
  mutates their \<open>children\<close> arrays through it. A folder object is created only when
  its path is not yet a key of the map and is stored under that path at once, so the
  path identifies the object: the model is a store from paths to the name of the object
  and the paths of its children, in order.
\<close>

type_synonym folderMap = "string \<rightharpoonup> (string option \<times> string list)"

definition addFolder :: "string \<Rightarrow> folderMap \<Rightarrow> folderMap" where
  "addFolder path m =
     (if path = ''/'' then m
      else
        let folderName = (if pathParts path = [] then None else Some (last (pathParts path)));
            parentPathParts = butlast (pathParts path);
            parentPath = (if length parentPathParts = 0 then ''/''
                          else ''/'' @ js_join ''/'' parentPathParts)
        in if m path \<noteq> None then m
           else
             let m1 = m(path \<mapsto> (folderName, []))
             in (case m1 parentPath of
                   Some (parentName, parentChildren) \<Rightarrow>
                     if path \<in> set parentChildren then m1
                     else m1(parentPath \<mapsto> (parentName, parentChildren @ [path]))
                 | None \<Rightarrow> m1))"

text \<open>The first pass: \<open>allPaths\<close>, the root and then the parent chain of every
  file key, in insertion order.\<close>

definition allPaths :: "FileMetadata list \<Rightarrow> string list" where
  "allPaths files =
     fold (\<lambda>file acc.
             fold setAdd
               (map (\<lambda>currentPath. ''/'' @ currentPath) (parentPaths (fileKey file))) acc)
       files [''/'']"

text \<open>\<open>Array.prototype.sort\<close> is stable; so is \<open>sort_key\<close>.\<close>

definition sortedPaths :: "FileMetadata list \<Rightarrow> string list" where
  "sortedPaths files = sort_key (\<lambda>p. length (js_split CHR ''/'' p)) (allPaths files)"

text \<open>The store after \<open>folderMap.set('/', root)\<close>.\<close>

definition rootMap :: folderMap where
  "rootMap = Map.empty(''/'' \<mapsto> (Some ''Root'', []))"

text \<open>The second pass: \<open>sortedPaths.forEach\<close>.\<close>

definition finalFolderMap :: "FileMetadata list \<Rightarrow> folderMap" where
  "finalFolderMap files = fold addFolder (sortedPaths files) rootMap"

text \<open>
  The tree that hangs from an object of the store. The fuel bounds the depth read; a
  store that is deeper (or cyclic) gives \<open>None\<close>.
\<close>

fun readFolder :: "nat \<Rightarrow> folderMap \<Rightarrow> string \<Rightarrow> Folder option" where
  "readFolder 0 m path = None"
| "readFolder (Suc n) m path =
     (case m path of
        None \<Rightarrow> None
      | Some (nm, cs) \<Rightarrow>
          (case those (map (readFolder n m) cs) of
             None \<Rightarrow> None
           | Some ts \<Rightarrow> Some (Folder nm path ts)))"

text \<open>\<open>buildFolderStructure\<close> returns \<open>[root]\<close>. No path is deeper than the deepest
  of the sorted paths, which is the fuel given to the reading of the root.\<close>

definition buildFolderStructure :: "FileMetadata list \<Rightarrow> Folder list option" where
  "buildFolderStructure files =
     (case readFolder (foldr max (map (\<lambda>p. length (js_split CHR ''/'' p)) (sortedPaths files)) 0)
             (finalFolderMap files) ''/'' of
        None \<Rightarrow> None
      | Some root \<Rightarrow> Some [root])"

text \<open>The paths of the nodes of a tree, parents first.\<close>

fun folderPaths :: "Folder \<Rightarrow> string list" where
  "folderPaths (Folder nm path cs) = path # concat (map folderPaths cs)"

section \<open>Example buckets\<close>

text \<open>A bucket holding one object.\<close>

definition oneObjectBucket :: bucket where
  "oneObjectBucket =
     \<lparr>objects = [(''x.png'', 1)], calls = [], maxKeys = 1000, failing = noFailure\<rparr>"

text \<open>The bucket of the folder-deletion scenario, with a sibling folder whose name
  starts with the same letter, and without it.\<close>

definition siblingBucket :: bucket where
  "siblingBucket =
     \<lparr>objects = [(''a/b/x.png'', 3), (''a/.keep'', 0), (''a/b/.keep'', 0), (''ab/y.png'', 7)],
      calls = [], maxKeys = 1000, failing = noFailure\<rparr>"

definition scenarioBucket :: bucket where
  "scenarioBucket =
     \<lparr>objects = [(''a/b/x.png'', 3), (''a/.keep'', 0), (''a/b/.keep'', 0)],
      calls = [], maxKeys = 1000, failing = noFailure\<rparr>"

text \<open>A bucket with 1001 objects under \<open>a/\<close>, one more than a listing page
  holds: the keys are \<open>a/\<close> followed by 0 to 1000 letters \<open>x\<close>.\<close>

definition crowdedBucket :: bucket where
  "crowdedBucket =
     \<lparr>objects = map (\<lambda>n. (''a/'' @ replicate n CHR ''x'', 0)) [0..<1001],
      calls = [], maxKeys = 1000, failing = noFailure\<rparr>"

section \<open>Reading the call log\<close>

text \<open>The keys of the put calls of a log, in order.\<close>

fun putKeys :: "call list \<Rightarrow> string list" where
  "putKeys [] = []"
| "putKeys (PutObject k # cs) = k # putKeys cs"
| "putKeys (c # cs) = putKeys cs"

section \<open>Example inputs\<close>



text \<open>The listing of the tree scenario, with a marker in every folder.\<close>

definition scenarioContents :: "(string \<times> nat) list" where
  "scenarioContents =
     [(''a/b/x.png'', 3), (''a/b/c/y.png'', 4), (''d.png'', 5),
      (''a/.keep'', 0), (''a/b/.keep'', 0), (''a/b/c/.keep'', 0)]"

section \<open>Well-formed names and paths\<close>

text \<open>A path segment: a non-empty name without \<open>/\<close>. The logical path of a list of
  segments is \<open>/\<close> followed by the segments joined with \<open>/\<close>; the empty list
  gives the root.\<close>

definition validSegment :: "string \<Rightarrow> bool" where
  "validSegment x = (x \<noteq> [] \<and> CHR ''/'' \<notin> set x)"

definition pathOf :: "string list \<Rightarrow> string" where
  "pathOf segs = ''/'' @ js_join ''/'' segs"

text \<open>A logical path without empty segments: the root, or \<open>/\<close> and then non-empty
  names separated by single \<open>/\<close>.\<close>

definition validPath :: "string \<Rightarrow> bool" where
  "validPath p = (p = ''/'' \<or> (startsWith p ''/'' \<and> [] \<notin> set (js_split CHR ''/'' (drop 1 p))))"

text \<open>An entry all of whose names, at every depth, are path segments.\<close>

fun validEntry :: "Entry \<Rightarrow> bool" and validEntries :: "Entry list \<Rightarrow> bool" where
  "validEntry (FileEntry file) = validSegment (file_name file)"
| "validEntry (DirectoryEntry folderName entries) = (validSegment folderName \<and> validEntries entries)"
| "validEntries [] = True"
| "validEntries (entry # entries) = (validEntry entry \<and> validEntries entries)"

section \<open>Notions used in the proofs about the folder tree\<close>

text \<open>The non-empty parts of a key before its last part: the segments of the folder that
  holds the object.\<close>

definition dirSegs :: "string \<Rightarrow> string list" where
  "dirSegs key = filterBoolean (butlast (js_split CHR ''/'' key))"

text \<open>The segment lists of all candidate folders of a listing: the root and every prefix
  of the folder of every key.\<close>

definition candidateSegs :: "FileMetadata list \<Rightarrow> string list set" where
  "candidateSegs files = insert [] {xs. \<exists>file\<in>set files. prefix xs (dirSegs (fileKey file))}"

text \<open>The paths of those members of a list of segment lists that lie directly under a
  given one, in the order of the list.\<close>

definition childPaths :: "string list list \<Rightarrow> string list \<Rightarrow> string list" where
  "childPaths xss ys = map pathOf (filter (\<lambda>x. x \<noteq> [] \<and> butlast x = ys) xss)"

text \<open>The files of the page in the tree scenario.\<close>

definition scenarioFiles :: "FileMetadata list" where
  "scenarioFiles = listFilesRoot [''a/''] scenarioContents"

section \<open>Size ceiling\<close>

lemma FILE_SIZE_LIMIT_value: "FILE_SIZE_LIMIT = 10485760"
  by (simp add: FILE_SIZE_LIMIT_def)

text \<open>
  C10. A file that is not the marker and whose size is exactly the ceiling of 10,485,760
  bytes passes \<open>isValidFile\<close> and is not refused by \<open>uploadFile\<close>: both compare
  with a strict greater-than, so only sizes strictly above the ceiling are refused, and
  size 0 always passes.
\<close>

theorem size_ceiling_is_inclusive:
  assumes "file_name file \<noteq> ''.keep''"
  shows "isValidFile (file_name file) 10485760
       \<and> isValidFile (file_name file) 0
       \<and> (isValidFile (file_name file) n = (n \<le> 10485760))
       \<and> ((fst (uploadFile file folder s) = Inl FileTooLarge) = (file_size file > 10485760))"
proof -
  have up: "(fst (uploadFile file folder s) = Inl FileTooLarge) = (file_size file > 10485760)"
    using assms
    by (auto simp: uploadFile_def Let_def FILE_SIZE_LIMIT_def sendPut_def getSignedUrl_def
        split: prod.splits sum.splits)
  show ?thesis
    using assms up by (auto simp: isValidFile_def FILE_SIZE_LIMIT_def)
qed

theorem size_ceiling_is_inclusive_witness:
  "isValidFile ''a.png'' 10485760 \<and> isValidFile ''a.png'' 0
   \<and> \<not> isValidFile ''a.png'' 10485761
   \<and> fst (uploadFile \<lparr>file_name = ''a.png'', file_size = 10485760\<rparr> ''/'' oneObjectBucket)
        \<noteq> Inl FileTooLarge"
  using size_ceiling_is_inclusive
    [of "\<lparr>file_name = ''a.png'', file_size = 10485760\<rparr>" 10485761 "''/''" oneObjectBucket]
  by simp

section \<open>Facts about the store operations\<close>

lemma logCall_simps [simp]:
  "calls (logCall c s) = calls s @ [c]"
  "objects (logCall c s) = objects s"
  "maxKeys (logCall c s) = maxKeys s"
  "failing (logCall c s) = failing s"
  by (simp_all add: logCall_def)

lemma startsWith_Nil [simp]: "startsWith s []"
  by (simp add: startsWith_def)

lemma startsWith_append [simp]: "startsWith (p @ t) p"
  by (simp add: startsWith_def)

lemma startsWith_iff: "startsWith s p = (\<exists>t. s = p @ t)"
  unfolding startsWith_def
  by (metis append_eq_conv_conj append_take_drop_id)

section \<open>Deleting the root\<close>

text \<open>
  C1, as the code has it. The guard against deleting the root is in the page's
  \<open>handleDeleteFolder\<close>: for a folder whose path is \<open>/\<close> it shows the error
  "Cannot delete the root folder" and returns with the bucket untouched, so no list and
  no delete call is issued, whatever the answer to the confirmation dialog would be.
\<close>

theorem handleDeleteFolder_rejects_root:
  "handleDeleteFolder (Folder nm ''/'' cs) confirmed s = (Some CannotDeleteRoot, s)"
  by (simp add: handleDeleteFolder_def)

text \<open>
  The service function \<open>deleteFolder\<close> itself has no such guard: on \<open>/\<close> the prefix
  is empty, the listing returns every object, and each is deleted. On a bucket holding
  \<open>x.png\<close> it succeeds after one list call and one delete call, and the bucket is
  empty.
\<close>

theorem deleteFolder_root_counterexample:
  "fst (deleteFolder ''/'' oneObjectBucket) = Inr ()
   \<and> calls (snd (deleteFolder ''/'' oneObjectBucket)) = [ListObjectsV2 [], DeleteObject ''x.png'']
   \<and> objects (snd (deleteFolder ''/'' oneObjectBucket)) = []"
  by (simp add: deleteFolder_def folderPrefix_def endsWith_def startsWith_def sendList_def
      oneObjectBucket_def noFailure_def deleteFile_def sendDelete_def)

section \<open>Round trip between keys and paths\<close>

text \<open>
  C8. Turning a key into a path and back gives the key, for every key; turning a path
  into a key and back gives the path, for every path that starts with \<open>/\<close>; and the
  root \<open>/\<close> and the empty key are mapped to each other.
\<close>

theorem key_path_round_trip:
  "toKey (toPath k) = k
   \<and> (startsWith p ''/'' \<longrightarrow> toPath (toKey p) = p)
   \<and> toKey ''/'' = [] \<and> toPath [] = ''/''"
  by (cases p) (auto simp: toKey_def toPath_def startsWith_def)

theorem key_path_round_trip_witness:
  "toKey (toPath ''a/b/c.png'') = ''a/b/c.png'' \<and> startsWith ''/a/b'' ''/''
   \<and> toPath (toKey ''/a/b'') = ''/a/b'' \<and> toKey ''/a/b'' = ''a/b''"
  using key_path_round_trip [of "''a/b/c.png''" "''/a/b''"]
  by (simp add: startsWith_def toKey_def)

section \<open>The size check of uploadFile\<close>

text \<open>
  C3. A file that is not named \<open>.keep\<close> and is larger than 10,485,760 bytes is refused
  by \<open>uploadFile\<close> with \<open>FileTooLarge\<close> and the bucket is returned as it was: no
  call has been made. For a file named \<open>.keep\<close> the size is not looked at: whatever
  its size, the result is not \<open>FileTooLarge\<close>, the next call made is the put of the
  marker's key, and when no call fails the upload succeeds, storing the object under that
  key after exactly one put and one presign.
\<close>

theorem uploadFile_size_check:
  "(file_name file \<noteq> ''.keep'' \<and> file_size file > 10485760 \<longrightarrow>
      uploadFile file folder s = (Inl FileTooLarge, s))
   \<and> (file_name file = ''.keep'' \<longrightarrow>
        fst (uploadFile file folder s) \<noteq> Inl FileTooLarge
        \<and> take (Suc (length (calls s))) (calls (snd (uploadFile file folder s)))
            = calls s @ [PutObject (uploadKey folder ''.keep'')]
        \<and> (failing s = noFailure \<longrightarrow>
              (\<exists>metadata s'. uploadFile file folder s = (Inr metadata, s')
                 \<and> fileKey metadata = uploadKey folder ''.keep''
                 \<and> size_bytes metadata = file_size file
                 \<and> objects s' = store_object (uploadKey folder ''.keep'') (file_size file) (objects s)
                 \<and> calls s' = calls s @ [PutObject (uploadKey folder ''.keep''),
                                          GetSignedUrl (uploadKey folder ''.keep'')])))"
  by (auto simp: uploadFile_def Let_def FILE_SIZE_LIMIT_def sendPut_def getSignedUrl_def
      noFailure_def fun_eq_iff split: prod.splits sum.splits)

theorem uploadFile_size_check_witness:
  "uploadFile \<lparr>file_name = ''big.bin'', file_size = 10485761\<rparr> ''/a'' oneObjectBucket
     = (Inl FileTooLarge, oneObjectBucket)
   \<and> fst (uploadFile \<lparr>file_name = ''.keep'', file_size = 10485761\<rparr> ''/a'' oneObjectBucket)
       \<noteq> Inl FileTooLarge
   \<and> calls (snd (uploadFile \<lparr>file_name = ''.keep'', file_size = 10485761\<rparr> ''/a'' oneObjectBucket))
       = [PutObject ''a/.keep'', GetSignedUrl ''a/.keep'']
   \<and> objects (snd (uploadFile \<lparr>file_name = ''.keep'', file_size = 10485761\<rparr> ''/a'' oneObjectBucket))
       = [(''x.png'', 1), (''a/.keep'', 10485761)]"
  using uploadFile_size_check
      [of "\<lparr>file_name = ''big.bin'', file_size = 10485761\<rparr>" "''/a''" oneObjectBucket]
    uploadFile_size_check
      [of "\<lparr>file_name = ''.keep'', file_size = 10485761\<rparr>" "''/a''" oneObjectBucket]
  by (auto simp: oneObjectBucket_def uploadKey_def toKey_def startsWith_def)

section \<open>Deleting a folder\<close>

lemma sendDelete_fields [simp]:
  "maxKeys (snd (sendDelete k s)) = maxKeys s"
  "failing (snd (sendDelete k s)) = failing s"
  "calls (snd (sendDelete k s)) = calls s @ [DeleteObject k]"
  by (simp_all add: sendDelete_def)

lemma sendDelete_objects:
  "objects (snd (sendDelete k s)) = objects s
   \<or> objects (snd (sendDelete k s)) = filter (\<lambda>ob. fst ob \<noteq> k) (objects s)"
  by (auto simp: sendDelete_def case_prod_unfold)

lemma deleteEach_frame:
  "deleteEach items s = (r, s') \<Longrightarrow>
     \<exists>ks. set ks \<subseteq> fst ` set items
        \<and> calls s' = calls s @ map DeleteObject ks
        \<and> set (objects s') \<subseteq> set (objects s)
        \<and> (\<forall>ob\<in>set (objects s). fst ob \<notin> set ks \<longrightarrow> ob \<in> set (objects s'))"
proof (induction items arbitrary: s)
  case Nil
  then show ?case by (intro exI [of _ "[]"]) auto
next
  case (Cons item items)
  obtain k n where item: "item = (k, n)" by (cases item)
  show ?case
  proof (cases "k = []")
    case True
    with Cons.prems item have "deleteEach items s = (r, s')" by simp
    from Cons.IH [OF this] obtain ks where "set ks \<subseteq> fst ` set items"
      "calls s' = calls s @ map DeleteObject ks" "set (objects s') \<subseteq> set (objects s)"
      "\<forall>ob\<in>set (objects s). fst ob \<notin> set ks \<longrightarrow> ob \<in> set (objects s')"
      by blast
    then show ?thesis by (intro exI [of _ ks]) auto
  next
    case False
    obtain r1 s1 where d: "sendDelete k s = (r1, s1)" by (cases "sendDelete k s")
    have c1: "calls s1 = calls s @ [DeleteObject k]"
      using sendDelete_fields(3) [of k s] d by simp
    have o1: "objects s1 = objects s \<or> objects s1 = filter (\<lambda>ob. fst ob \<noteq> k) (objects s)"
      using sendDelete_objects [of k s] d by simp
    show ?thesis
    proof (cases r1)
      case (Inl e)
      with Cons.prems item False d have "s' = s1"
        by (simp add: deleteFile_def)
      with c1 o1 item show ?thesis
        by (intro exI [of _ "[k]"]) auto
    next
      case (Inr u)
      with Cons.prems item False d have "deleteEach items s1 = (r, s')"
        by (simp add: deleteFile_def)
      from Cons.IH [OF this] obtain ks where ks: "set ks \<subseteq> fst ` set items"
        "calls s' = calls s1 @ map DeleteObject ks" "set (objects s') \<subseteq> set (objects s1)"
        "\<forall>ob\<in>set (objects s1). fst ob \<notin> set ks \<longrightarrow> ob \<in> set (objects s')"
        by blast
      from ks c1 o1 item show ?thesis
        by (intro exI [of _ "k # ks"]) auto
    qed
  qed
qed

lemma folderPrefix_plain:
  "startsWith folder ''/'' \<Longrightarrow> \<not> endsWith folder ''/'' \<Longrightarrow> folderPrefix folder = toKey folder @ ''/''"
  by (cases folder) (auto simp: folderPrefix_def toKey_def startsWith_def endsWith_def Let_def)

text \<open>
  C9. Whatever \<open>deleteFolder\<close> returns, the calls it has made are one list call
  with the prefix of the folder and then delete calls whose keys all start with that
  prefix; every object whose key does not start with the prefix is still in the bucket,
  and nothing is added. For a path that starts with \<open>/\<close> and does not end with
  one the prefix is the folder's key followed by \<open>/\<close>, so a sibling folder whose
  name merely begins with the same text (\<open>ab/\<close> beside \<open>a/\<close>) is not touched.
\<close>

theorem deleteFolder_touches_only_prefix:
  assumes "deleteFolder folder s = (r, s')"
  shows "(\<exists>ks. calls s' = calls s @ ListObjectsV2 (folderPrefix folder) # map DeleteObject ks
            \<and> (\<forall>k\<in>set ks. startsWith k (folderPrefix folder)))
       \<and> (\<forall>ob\<in>set (objects s). \<not> startsWith (fst ob) (folderPrefix folder) \<longrightarrow> ob \<in> set (objects s'))
       \<and> set (objects s') \<subseteq> set (objects s)
       \<and> (startsWith folder ''/'' \<and> \<not> endsWith folder ''/'' \<longrightarrow>
            folderPrefix folder = toKey folder @ ''/'')"
proof -
  let ?pre = "folderPrefix folder"
  let ?page = "take (maxKeys s) (filter (\<lambda>(k, n). startsWith k ?pre) (objects s))"
  have page: "\<forall>k\<in>fst ` set ?page. startsWith k ?pre"
    by (auto dest!: in_set_takeD)
  have main: "(\<exists>ks. calls s' = calls s @ ListObjectsV2 ?pre # map DeleteObject ks
            \<and> (\<forall>k\<in>set ks. startsWith k ?pre))
       \<and> (\<forall>ob\<in>set (objects s). \<not> startsWith (fst ob) ?pre \<longrightarrow> ob \<in> set (objects s'))
       \<and> set (objects s') \<subseteq> set (objects s)"
  proof (cases "failing s (calls s) (ListObjectsV2 ?pre)")
    case True
    with assms have "s' = logCall (ListObjectsV2 ?pre) s"
      by (auto simp: deleteFolder_def sendList_def)
    then show ?thesis by (auto intro: exI [of _ "[]"])
  next
    case False
    show ?thesis
    proof (cases "?page = []")
      case True
      with False assms have "s' = logCall (ListObjectsV2 ?pre) s"
        by (auto simp: deleteFolder_def sendList_def)
      then show ?thesis by (auto intro: exI [of _ "[]"])
    next
      case nonempty: False
      with False assms have "deleteEach ?page (logCall (ListObjectsV2 ?pre) s) = (r, s')"
        by (auto simp: deleteFolder_def sendList_def)
      from deleteEach_frame [OF this] obtain ks where ks: "set ks \<subseteq> fst ` set ?page"
        "calls s' = calls s @ ListObjectsV2 ?pre # map DeleteObject ks"
        "set (objects s') \<subseteq> set (objects s)"
        "\<forall>ob\<in>set (objects s). fst ob \<notin> set ks \<longrightarrow> ob \<in> set (objects s')"
        by auto
      from ks(1) page have pk: "\<forall>k\<in>set ks. startsWith k ?pre" by blast
      with ks show ?thesis by (intro conjI exI [of _ ks]) auto
    qed
  qed
  with folderPrefix_plain show ?thesis by blast
qed

theorem deleteFolder_touches_only_prefix_witness:
  "deleteFolder ''/a'' siblingBucket
     = (Inr (), siblingBucket\<lparr>objects := [(''ab/y.png'', 7)],
          calls := [ListObjectsV2 ''a/'', DeleteObject ''a/b/x.png'', DeleteObject ''a/.keep'',
                    DeleteObject ''a/b/.keep'']\<rparr>)
   \<and> (''ab/y.png'', 7) \<in> set (objects (snd (deleteFolder ''/a'' siblingBucket)))
   \<and> folderPrefix ''/a'' = ''a/''"
proof -
  have e: "deleteFolder ''/a'' siblingBucket
     = (Inr (), siblingBucket\<lparr>objects := [(''ab/y.png'', 7)],
          calls := [ListObjectsV2 ''a/'', DeleteObject ''a/b/x.png'', DeleteObject ''a/.keep'',
                    DeleteObject ''a/b/.keep'']\<rparr>)"
    by (simp add: deleteFolder_def folderPrefix_def endsWith_def startsWith_def sendList_def
        siblingBucket_def noFailure_def deleteFile_def sendDelete_def logCall_def)
  have p: "\<not> startsWith (fst (''ab/y.png'', 7::nat)) (folderPrefix ''/a'')"
    by (simp add: folderPrefix_def endsWith_def startsWith_def)
  have m: "(''ab/y.png'', 7) \<in> set (objects siblingBucket)"
    by (simp add: siblingBucket_def)
  have "\<forall>ob\<in>set (objects siblingBucket).
          \<not> startsWith (fst ob) (folderPrefix ''/a'') \<longrightarrow>
          ob \<in> set (objects (siblingBucket\<lparr>objects := [(''ab/y.png'', 7)],
          calls := [ListObjectsV2 ''a/'', DeleteObject ''a/b/x.png'', DeleteObject ''a/.keep'',
                    DeleteObject ''a/b/.keep'']\<rparr>))"
    using deleteFolder_touches_only_prefix [OF e] by blast
  from this m p have "(''ab/y.png'', 7) \<in> set (objects (siblingBucket\<lparr>objects := [(''ab/y.png'', 7)],
          calls := [ListObjectsV2 ''a/'', DeleteObject ''a/b/x.png'', DeleteObject ''a/.keep'',
                    DeleteObject ''a/b/.keep'']\<rparr>))"
    by blast
  then have k: "(''ab/y.png'', 7) \<in> set (objects (snd (deleteFolder ''/a'' siblingBucket)))"
    by (simp only: e snd_conv)
  have f: "folderPrefix ''/a'' = ''a/''"
    by (simp add: folderPrefix_def endsWith_def startsWith_def)
  from e k f show ?thesis by blast
qed

lemma deleteEach_noFailure:
  assumes "failing s = noFailure" and "\<forall>item\<in>set items. fst item \<noteq> []"
  shows "deleteEach items s =
           (Inr (), s\<lparr>calls := calls s @ map (\<lambda>item. DeleteObject (fst item)) items,
                       objects := filter (\<lambda>ob. fst ob \<notin> fst ` set items) (objects s)\<rparr>)"
  using assms
proof (induction items arbitrary: s)
  case Nil
  then show ?case by simp
next
  case (Cons item items)
  obtain k n where item: "item = (k, n)" by (cases item)
  let ?s1 = "(logCall (DeleteObject k) s)\<lparr>objects := filter (\<lambda>(k', n). k' \<noteq> k) (objects s)\<rparr>"
  from Cons.prems item have k: "k \<noteq> []" by simp
  have d: "deleteFile k s = (Inr (), ?s1)"
    using Cons.prems(1) by (simp add: deleteFile_def sendDelete_def noFailure_def)
  have f1: "failing ?s1 = noFailure" using Cons.prems(1) by simp
  have rest: "\<forall>item\<in>set items. fst item \<noteq> []" using Cons.prems(2) by simp
  have "deleteEach (item # items) s = deleteEach items ?s1"
    using item k d by simp
  also have "\<dots> = (Inr (), ?s1\<lparr>calls := calls ?s1 @ map (\<lambda>item. DeleteObject (fst item)) items,
                       objects := filter (\<lambda>ob. fst ob \<notin> fst ` set items) (objects ?s1)\<rparr>)"
    by (rule Cons.IH [OF f1 rest])
  also have "\<dots> = (Inr (), s\<lparr>calls := calls s @ map (\<lambda>item. DeleteObject (fst item)) (item # items),
                       objects := filter (\<lambda>ob. fst ob \<notin> fst ` set (item # items)) (objects s)\<rparr>)"
    using item by (auto simp: logCall_def case_prod_unfold intro!: filter_cong)
  finally show ?case .
qed

lemma deleteFolder_noFailure:
  assumes "failing s = noFailure" and "\<forall>ob\<in>set (objects s). fst ob \<noteq> []"
  shows "deleteFolder folder s =
           (Inr (), s\<lparr>calls := calls s @ ListObjectsV2 (folderPrefix folder) #
                          map (\<lambda>item. DeleteObject (fst item))
                            (take (maxKeys s)
                               (filter (\<lambda>(k, n). startsWith k (folderPrefix folder)) (objects s))),
                       objects := filter (\<lambda>ob. fst ob \<notin> fst ` set
                            (take (maxKeys s)
                               (filter (\<lambda>(k, n). startsWith k (folderPrefix folder)) (objects s))))
                          (objects s)\<rparr>)"
proof -
  define pre where "pre = folderPrefix folder"
  define page where "page = take (maxKeys s) (filter (\<lambda>(k, n). startsWith k pre) (objects s))"
  let ?s1 = "logCall (ListObjectsV2 pre) s"
  have l: "sendList pre s = (Inr page, ?s1)"
    using assms(1) by (simp add: sendList_def noFailure_def page_def)
  have f1: "failing ?s1 = noFailure" using assms(1) by simp
  have keys: "\<forall>item\<in>set page. fst item \<noteq> []"
    using assms(2) by (auto simp: page_def dest!: in_set_takeD)
  have "deleteFolder folder s =
           (Inr (), s\<lparr>calls := calls s @ ListObjectsV2 pre # map (\<lambda>item. DeleteObject (fst item)) page,
                       objects := filter (\<lambda>ob. fst ob \<notin> fst ` set page) (objects s)\<rparr>)"
  proof (cases "page = []")
    case True
    then show ?thesis using l by (simp add: deleteFolder_def logCall_def pre_def)
  next
    case False
    then have "deleteFolder folder s = deleteEach page ?s1"
      using l by (simp add: deleteFolder_def pre_def)
    also note deleteEach_noFailure [OF f1 keys]
    finally show ?thesis by (simp add: logCall_def)
  qed
  then show ?thesis by (simp only: page_def pre_def)
qed

text \<open>
  C5, as the code has it. For a folder path other than the root, when no call fails,
  \<open>deleteFolder\<close> makes one list call with the prefix of the folder (the path with
  a trailing \<open>/\<close> added if missing and the leading \<open>/\<close> removed) and then
  exactly one delete call per key of the one page that the listing returns, in order; the
  objects with those keys are gone and the others are unchanged. When the page holds every
  object under the prefix, no key with the prefix remains. When the page is empty the call
  succeeds after the list call alone and deletes nothing. There is no second list call:
  what a truncated listing leaves out is not deleted.
\<close>

theorem deleteFolder_deletes_listed_page:
  assumes "folder \<noteq> ''/''" and "failing s = noFailure" and "\<forall>ob\<in>set (objects s). fst ob \<noteq> []"
    and "page = take (maxKeys s) (filter (\<lambda>(k, n). startsWith k (folderPrefix folder)) (objects s))"
    and "deleteFolder folder s = (r, s')"
  shows "r = Inr ()
       \<and> calls s' = calls s @ ListObjectsV2 (folderPrefix folder) # map (\<lambda>item. DeleteObject (fst item)) page
       \<and> objects s' = filter (\<lambda>ob. fst ob \<notin> fst ` set page) (objects s)
       \<and> (length (filter (\<lambda>(k, n). startsWith k (folderPrefix folder)) (objects s)) \<le> maxKeys s \<longrightarrow>
            filter (\<lambda>(k, n). startsWith k (folderPrefix folder)) (objects s') = [])
       \<and> (page = [] \<longrightarrow> objects s' = objects s \<and> calls s' = calls s @ [ListObjectsV2 (folderPrefix folder)])
       \<and> (startsWith folder ''/'' \<and> \<not> endsWith folder ''/'' \<longrightarrow>
            folderPrefix folder = toKey folder @ ''/'')"
proof -
  let ?P = "\<lambda>(k, n::nat). startsWith k (folderPrefix folder)"
  from deleteFolder_noFailure [OF assms(2,3), of folder] assms(4,5)
  have r: "r = Inr ()"
    and c: "calls s' = calls s @ ListObjectsV2 (folderPrefix folder) # map (\<lambda>item. DeleteObject (fst item)) page"
    and ob: "objects s' = filter (\<lambda>ob. fst ob \<notin> fst ` set page) (objects s)"
    by auto
  have full: "filter ?P (objects s') = []" if "length (filter ?P (objects s)) \<le> maxKeys s"
  proof -
    from that assms(4) have "page = filter ?P (objects s)" by simp
    then have "\<forall>x\<in>set (objects s). ?P x \<longrightarrow> fst x \<in> fst ` set page" by auto
    then show ?thesis unfolding ob by (auto simp: filter_empty_conv)
  qed
  have empty: "objects s' = objects s \<and> calls s' = calls s @ [ListObjectsV2 (folderPrefix folder)]"
    if "page = []"
    using that c ob by simp
  from r c ob full empty folderPrefix_plain show ?thesis by blast
qed

theorem deleteFolder_deletes_listed_page_witness:
  "deleteFolder ''/a'' scenarioBucket
     = (Inr (), scenarioBucket\<lparr>objects := [],
          calls := [ListObjectsV2 ''a/'', DeleteObject ''a/b/x.png'', DeleteObject ''a/.keep'',
                    DeleteObject ''a/b/.keep'']\<rparr>)
   \<and> folderPrefix ''/a'' = ''a/''"
proof -
  let ?page = "[(''a/b/x.png'', 3::nat), (''a/.keep'', 0), (''a/b/.keep'', 0)]"
  have f: "folderPrefix ''/a'' = ''a/''"
    by (simp add: folderPrefix_def endsWith_def startsWith_def)
  have a1: "''/a'' \<noteq> ''/''" by simp
  have a2: "failing scenarioBucket = noFailure" by (simp add: scenarioBucket_def)
  have a3: "\<forall>ob\<in>set (objects scenarioBucket). fst ob \<noteq> []" by (simp add: scenarioBucket_def)
  have a4: "?page = take (maxKeys scenarioBucket)
      (filter (\<lambda>(k, n). startsWith k (folderPrefix ''/a'')) (objects scenarioBucket))"
    by (simp add: f scenarioBucket_def startsWith_def)
  obtain r s' where e: "deleteFolder ''/a'' scenarioBucket = (r, s')"
    by (cases "deleteFolder ''/a'' scenarioBucket")
  have un: "s' = scenarioBucket\<lparr>objects := objects s', calls := calls s'\<rparr>"
    using e a2 a3 deleteFolder_noFailure [of scenarioBucket "''/a''"] by auto
  from deleteFolder_deletes_listed_page [OF a1 a2 a3 a4 e]
  have "r = Inr ()"
    and "calls s' = calls scenarioBucket @ ListObjectsV2 (folderPrefix ''/a'') # map (\<lambda>item. DeleteObject (fst item)) ?page"
    and "objects s' = filter (\<lambda>ob. fst ob \<notin> fst ` set ?page) (objects scenarioBucket)"
    by blast+
  then have "r = Inr ()" "calls s' = [ListObjectsV2 ''a/'', DeleteObject ''a/b/x.png'', DeleteObject ''a/.keep'',
                    DeleteObject ''a/b/.keep'']" "objects s' = []"
    by (simp_all add: f scenarioBucket_def)
  with un e f show ?thesis by simp
qed

lemma crowded_page:
  "take (maxKeys crowdedBucket) (filter (\<lambda>(k, n). startsWith k ''a/'') (objects crowdedBucket))
     = map (\<lambda>n. (''a/'' @ replicate n CHR ''x'', 0)) [0..<1000]"
proof -
  have "filter (\<lambda>(k, n). startsWith k ''a/'') (objects crowdedBucket) = objects crowdedBucket"
    by (simp add: crowdedBucket_def filter_id_conv startsWith_def)
  then show ?thesis
    by (simp add: crowdedBucket_def take_map)
qed

text \<open>
  The claim that the listing is paginated fails on a bucket with 1001 objects under
  \<open>a/\<close> and pages of 1000 keys: \<open>deleteFolder('/a')\<close> succeeds after one
  list call and 1000 delete calls, and the last object under \<open>a/\<close> is still there.
\<close>

theorem deleteFolder_leaves_keys_counterexample:
  "fst (deleteFolder ''/a'' crowdedBucket) = Inr ()
   \<and> length (calls (snd (deleteFolder ''/a'' crowdedBucket))) = 1001
   \<and> (''a/'' @ replicate 1000 CHR ''x'', 0) \<in> set (objects (snd (deleteFolder ''/a'' crowdedBucket)))
   \<and> startsWith (''a/'' @ replicate 1000 CHR ''x'') (folderPrefix ''/a'')"
proof -
  have f: "folderPrefix ''/a'' = ''a/''"
    by (simp add: folderPrefix_def endsWith_def startsWith_def)
  have a2: "failing crowdedBucket = noFailure" by (simp add: crowdedBucket_def)
  have a3: "\<forall>ob\<in>set (objects crowdedBucket). fst ob \<noteq> []" by (auto simp: crowdedBucket_def)
  note d = deleteFolder_noFailure [OF a2 a3, of "''/a''", unfolded f crowded_page]
  have inj: "replicate 1000 CHR ''x'' \<noteq> replicate n CHR ''x''" if "n < 1000" for n
  proof
    assume "replicate 1000 CHR ''x'' = replicate n CHR ''x''"
    then have "length (replicate 1000 CHR ''x'') = length (replicate n CHR ''x'')" by simp
    with that show False by simp
  qed
  have notin: "''a/'' @ replicate 1000 CHR ''x'' \<notin>
      fst ` set (map (\<lambda>n. (''a/'' @ replicate n CHR ''x'', 0::nat)) [0..<1000])"
    using inj by (auto simp: image_iff)
  have mem: "(''a/'' @ replicate 1000 CHR ''x'', 0) \<in> set (objects crowdedBucket)"
    by (simp add: crowdedBucket_def image_iff)
  have "(''a/'' @ replicate 1000 CHR ''x'', 0) \<in> set (objects (snd (deleteFolder ''/a'' crowdedBucket)))"
    unfolding d using notin mem by simp
  moreover have "length (calls (snd (deleteFolder ''/a'' crowdedBucket))) = 1001"
    unfolding d by (simp add: crowdedBucket_def)
  moreover have "fst (deleteFolder ''/a'' crowdedBucket) = Inr ()"
    unfolding d by simp
  ultimately show ?thesis by (simp add: f startsWith_def)
qed

section \<open>Splitting and joining\<close>

lemma js_split_not_Nil [simp]: "js_split c s \<noteq> []"
  by (induction s) (auto split: list.splits)

lemma js_split_no_sep: "p \<in> set (js_split c s) \<Longrightarrow> c \<notin> set p"
  by (induction s arbitrary: p) (auto split: list.splits if_splits)

lemma js_join_Cons: "ps \<noteq> [] \<Longrightarrow> js_join sep (p # ps) = p @ sep @ js_join sep ps"
  by (cases ps) auto

lemma js_join_snoc: "ps \<noteq> [] \<Longrightarrow> js_join sep (ps @ [b]) = js_join sep ps @ sep @ b"
  by (induction sep ps rule: js_join.induct) auto

lemma js_join_split [simp]: "js_join [c] (js_split c s) = s"
proof (induction s)
  case Nil
  then show ?case by simp
next
  case (Cons x s)
  show ?case
  proof (cases "x = c")
    case True
    then show ?thesis using Cons by (simp add: js_join_Cons)
  next
    case False
    obtain w ws where ws: "js_split c s = w # ws"
      by (cases "js_split c s") auto
    show ?thesis
    proof (cases ws)
      case Nil
      with ws Cons False show ?thesis by simp
    next
      case (Cons y ys)
      with ws False Cons.IH show ?thesis by auto
    qed
  qed
qed


lemma js_split_no_sep_id: "c \<notin> set b \<Longrightarrow> js_split c b = [b]"
  by (induction b) auto


section \<open>The files shown in a folder\<close>










section \<open>Uploading a batch of files\<close>

lemma putKeys_append [simp]: "putKeys (xs @ ys) = putKeys xs @ putKeys ys"
  by (induction xs rule: putKeys.induct) auto








section \<open>Paths as lists of segments\<close>

lemma js_split_first:
  "c \<notin> set a \<Longrightarrow> js_split c (a @ c # b) = a # js_split c b"
  by (induction a) auto

lemma js_join_eq_Nil:
  "list_all validSegment xs \<Longrightarrow> (js_join sep xs = []) = (xs = [])"
  by (induction sep xs rule: js_join.induct) (auto simp: validSegment_def)

lemma js_join_append:
  "xs \<noteq> [] \<Longrightarrow> ys \<noteq> [] \<Longrightarrow> js_join sep (xs @ ys) = js_join sep xs @ sep @ js_join sep ys"
proof (induction sep xs rule: js_join.induct)
  case (1 sep)
  then show ?case by simp
next
  case (2 sep x)
  then show ?case by (cases ys) auto
next
  case (3 sep x y zs)
  then show ?case by simp
qed

lemma js_split_join:
  "list_all validSegment xs \<Longrightarrow> xs \<noteq> [] \<Longrightarrow> js_split CHR ''/'' (js_join ''/'' xs) = xs"
proof (induction "''/''" xs rule: js_join.induct)
  case 1
  then show ?case by simp
next
  case (2 x)
  then show ?case by (simp add: validSegment_def js_split_no_sep_id)
next
  case (3 x y ys)
  then have "js_split CHR ''/'' (x @ CHR ''/'' # js_join ''/'' (y # ys)) = x # js_split CHR ''/'' (js_join ''/'' (y # ys))"
    by (intro js_split_first) (simp add: validSegment_def)
  with 3 show ?case by simp
qed

lemma pathParts_pathOf [simp]:
  "list_all validSegment xs \<Longrightarrow> pathParts (pathOf xs) = xs"
proof (cases "xs = []")
  case True
  then show ?thesis by (simp add: pathParts_def pathOf_def filterBoolean_def)
next
  case False
  assume v: "list_all validSegment xs"
  have "filter (\<lambda>p. p \<noteq> []) xs = xs"
    using v by (simp add: filter_id_conv list_all_iff validSegment_def)
  then show ?thesis
    using js_split_join [OF v False] by (simp add: pathParts_def pathOf_def filterBoolean_def)
qed

lemma pathOf_inject:
  "list_all validSegment xs \<Longrightarrow> list_all validSegment ys \<Longrightarrow> (pathOf xs = pathOf ys) = (xs = ys)"
  by (metis pathParts_pathOf)

lemma pathOf_Nil [simp]: "pathOf [] = ''/''"
  by (simp add: pathOf_def)

lemma pathOf_eq_root:
  "list_all validSegment xs \<Longrightarrow> (pathOf xs = ''/'') = (xs = [])"
  using pathOf_inject [of xs "[]"] by simp

lemma depth_pathOf:
  "list_all validSegment xs \<Longrightarrow>
   length (js_split CHR ''/'' (pathOf xs)) = (if xs = [] then 2 else Suc (length xs))"
  using js_split_join [of xs] by (auto simp: pathOf_def)

lemma toKey_pathOf:
  "list_all validSegment xs \<Longrightarrow> toKey (pathOf xs) = js_join ''/'' xs"
  by (auto simp: toKey_def pathOf_def startsWith_def js_join_eq_Nil)

lemma validSegment_split:
  "list_all validSegment (filterBoolean (js_split CHR ''/'' s))"
  by (auto simp: list_all_iff filterBoolean_def validSegment_def dest: js_split_no_sep)

lemma validSegment_pathParts [simp]: "list_all validSegment (pathParts p)"
  by (simp add: pathParts_def validSegment_split)

lemma validPath_iff: "validPath p = (\<exists>xs. list_all validSegment xs \<and> p = pathOf xs)"
proof
  assume "validPath p"
  then consider "p = ''/''" | "startsWith p ''/''" "[] \<notin> set (js_split CHR ''/'' (drop 1 p))" "p \<noteq> ''/''"
    by (auto simp: validPath_def)
  then show "\<exists>xs. list_all validSegment xs \<and> p = pathOf xs"
  proof cases
    case 1
    then show ?thesis by (intro exI [of _ "[]"]) simp
  next
    case 2
    from 2(1) obtain r where r: "p = CHR ''/'' # r" by (cases p) (auto simp: startsWith_def)
    let ?xs = "js_split CHR ''/'' r"
    have "list_all validSegment ?xs"
      using 2(2) r by (auto simp: list_all_iff validSegment_def dest: js_split_no_sep)
    moreover have "p = pathOf ?xs" using r by (simp add: pathOf_def)
    ultimately show ?thesis by blast
  qed
next
  assume "\<exists>xs. list_all validSegment xs \<and> p = pathOf xs"
  then obtain xs where xs: "list_all validSegment xs" "p = pathOf xs" by blast
  show "validPath p"
  proof (cases "xs = []")
    case True
    with xs show ?thesis by (simp add: validPath_def)
  next
    case False
    have "[] \<notin> set xs" using xs(1) by (auto simp: list_all_iff validSegment_def)
    then show ?thesis
      using xs js_split_join [OF xs(1) False]
      by (simp add: validPath_def pathOf_def startsWith_def)
  qed
qed

section \<open>The candidate paths of the tree builder\<close>

lemma parentChain_prefixes:
  assumes "list_all validSegment pre" and "\<forall>p\<in>set parts. CHR ''/'' \<notin> set p"
  shows "parentChain (js_join ''/'' pre) parts
           = map (\<lambda>ys. js_join ''/'' (pre @ ys)) (tl (prefixes (filterBoolean parts)))"
  using assms
proof (induction parts arbitrary: pre)
  case Nil
  then show ?case by (simp add: filterBoolean_def)
next
  case (Cons p parts)
  show ?case
  proof (cases "p = []")
    case True
    with Cons show ?thesis by (simp add: filterBoolean_def)
  next
    case False
    have vp: "validSegment p" using False Cons.prems(2) by (simp add: validSegment_def)
    have v': "list_all validSegment (pre @ [p])" using Cons.prems(1) vp by simp
    have path': "(if js_join ''/'' pre \<noteq> [] then js_join ''/'' pre @ ''/'' @ p else p)
                   = js_join ''/'' (pre @ [p])"
    proof (cases "pre = []")
      case True
      then show ?thesis by simp
    next
      case nonempty: False
      then have "js_join ''/'' pre \<noteq> []" using js_join_eq_Nil [OF Cons.prems(1)] by simp
      then show ?thesis using js_join_snoc [OF nonempty] by simp
    qed
    have IH: "parentChain (js_join ''/'' (pre @ [p])) parts
           = map (\<lambda>ys. js_join ''/'' ((pre @ [p]) @ ys)) (tl (prefixes (filterBoolean parts)))"
      using Cons.IH [OF v'] Cons.prems(2) by simp
    have pf: "prefixes (filterBoolean parts) = [] # tl (prefixes (filterBoolean parts))"
      by (cases "filterBoolean parts") simp_all
    have "parentChain (js_join ''/'' pre) (p # parts)
            = js_join ''/'' (pre @ [p]) # parentChain (js_join ''/'' (pre @ [p])) parts"
      using False path' by (simp add: Let_def)
    also have "\<dots> = js_join ''/'' (pre @ [p]) #
        map (\<lambda>ys. js_join ''/'' (pre @ p # ys)) (tl (prefixes (filterBoolean parts)))"
      using IH by simp
    also have "\<dots> = map (\<lambda>ys. js_join ''/'' (pre @ p # ys)) ([] # tl (prefixes (filterBoolean parts)))"
      by simp
    also have "\<dots> = map (\<lambda>ys. js_join ''/'' (pre @ p # ys)) (prefixes (filterBoolean parts))"
      using pf by simp
    also have "\<dots> = map (\<lambda>ys. js_join ''/'' (pre @ ys)) (tl (prefixes (filterBoolean (p # parts))))"
      using False by (simp add: filterBoolean_def comp_def)
    finally show ?thesis .
  qed
qed

lemma parentPaths_prefixes:
  "map (\<lambda>currentPath. ''/'' @ currentPath) (parentPaths key) = map pathOf (tl (prefixes (dirSegs key)))"
proof -
  have "\<forall>p\<in>set (butlast (js_split CHR ''/'' key)). CHR ''/'' \<notin> set p"
    by (auto dest: in_set_butlastD js_split_no_sep)
  from parentChain_prefixes [of "[]", OF _ this]
  show ?thesis by (simp add: parentPaths_def dirSegs_def pathOf_def)
qed

lemma set_tl_prefixes: "set (tl (prefixes xs)) = {ys. prefix ys xs \<and> ys \<noteq> []}"
proof -
  have "prefixes xs = [] # tl (prefixes xs)" by (cases xs) simp_all
  moreover have "distinct (prefixes xs)" by (rule distinct_prefixes)
  ultimately have "[] \<notin> set (tl (prefixes xs))" by (metis distinct.simps(2))
  moreover have "set (prefixes xs) = insert [] (set (tl (prefixes xs)))"
    using \<open>prefixes xs = [] # tl (prefixes xs)\<close> by (metis list.simps(15))
  ultimately show ?thesis
    by (auto simp: set_eq_iff in_set_prefixes [symmetric] simp del: in_set_prefixes)
qed

lemma set_fold_setAdd [simp]: "set (fold setAdd xs acc) = set xs \<union> set acc"
  by (induction xs arbitrary: acc) (auto simp: setAdd_def)

lemma distinct_fold_setAdd: "distinct acc \<Longrightarrow> distinct (fold setAdd xs acc)"
  by (induction xs arbitrary: acc) (auto simp: setAdd_def)

lemma set_fold_chains:
  "set (fold (\<lambda>file acc. fold setAdd (g file) acc) files acc) = set acc \<union> (\<Union>file\<in>set files. set (g file))"
  by (induction files arbitrary: acc) auto

lemma distinct_fold_chains:
  "distinct acc \<Longrightarrow> distinct (fold (\<lambda>file acc. fold setAdd (g file) acc) files acc)"
  by (induction files arbitrary: acc) (auto simp: distinct_fold_setAdd)

lemma set_allPaths_chains:
  "set (allPaths files)
     = insert ''/'' (\<Union>file\<in>set files. (\<lambda>p. ''/'' @ p) ` set (parentPaths (fileKey file)))"
  by (simp add: allPaths_def set_fold_chains)

lemma set_allPaths: "set (allPaths files) = pathOf ` candidateSegs files"
proof -
  have "(\<lambda>p. ''/'' @ p) ` set (parentPaths key) = pathOf ` {ys. prefix ys (dirSegs key) \<and> ys \<noteq> []}" for key
    using parentPaths_prefixes [of key] set_tl_prefixes [of "dirSegs key"]
    by (metis list.set_map)
  then have "set (allPaths files)
     = insert (pathOf []) (\<Union>file\<in>set files. pathOf ` {ys. prefix ys (dirSegs (fileKey file)) \<and> ys \<noteq> []})"
    by (simp add: set_allPaths_chains)
  also have "\<dots> = pathOf ` candidateSegs files"
  proof (intro set_eqI iffI)
    fix p
    assume "p \<in> insert (pathOf []) (\<Union>file\<in>set files. pathOf ` {ys. prefix ys (dirSegs (fileKey file)) \<and> ys \<noteq> []})"
    then show "p \<in> pathOf ` candidateSegs files"
      by (auto simp: candidateSegs_def)
  next
    fix p
    assume "p \<in> pathOf ` candidateSegs files"
    then obtain xs where xs: "p = pathOf xs" "xs \<in> candidateSegs files" by blast
    show "p \<in> insert (pathOf []) (\<Union>file\<in>set files. pathOf ` {ys. prefix ys (dirSegs (fileKey file)) \<and> ys \<noteq> []})"
    proof (cases "xs = []")
      case True
      with xs show ?thesis by simp
    next
      case False
      with xs(2) obtain f where "f \<in> set files" "prefix xs (dirSegs (fileKey f))"
        by (auto simp: candidateSegs_def)
      with False xs(1) show ?thesis by blast
    qed
  qed
  finally show ?thesis .
qed

lemma distinct_allPaths: "distinct (allPaths files)"
  by (simp add: allPaths_def distinct_fold_chains)

lemma candidateSegs_valid: "xs \<in> candidateSegs files \<Longrightarrow> list_all validSegment xs"
proof -
  assume "xs \<in> candidateSegs files"
  then consider "xs = []" | key where "prefix xs (dirSegs key)"
    by (auto simp: candidateSegs_def)
  then show ?thesis
  proof cases
    case 1
    then show ?thesis by simp
  next
    case 2
    have "list_all validSegment (dirSegs key)"
      by (auto simp: dirSegs_def list_all_iff filterBoolean_def validSegment_def
          dest: in_set_butlastD js_split_no_sep)
    with 2 show ?thesis by (auto simp: prefix_def)
  qed
qed

lemma candidateSegs_butlast: "xs \<in> candidateSegs files \<Longrightarrow> butlast xs \<in> candidateSegs files"
  by (auto simp: candidateSegs_def intro: prefix_order.trans [OF prefixeq_butlast])

lemma candidateSegs_prefix:
  "xs \<in> candidateSegs files \<Longrightarrow> prefix ys xs \<Longrightarrow> ys \<in> candidateSegs files"
  by (auto simp: candidateSegs_def intro: prefix_order.trans)

lemma candidateSegs_Nil [simp]: "[] \<in> candidateSegs files"
  by (simp add: candidateSegs_def)

section \<open>The second pass of the tree builder\<close>

lemma validSegment_butlast: "list_all validSegment xs \<Longrightarrow> list_all validSegment (butlast xs)"
  by (auto simp: list_all_iff dest: in_set_butlastD)

lemma addFolder_pathOf:
  assumes "list_all validSegment xs" and "xs \<noteq> []"
  shows "addFolder (pathOf xs) m =
           (if m (pathOf xs) \<noteq> None then m
            else (case (m(pathOf xs \<mapsto> (Some (last xs), []))) (pathOf (butlast xs)) of
                    Some (parentName, parentChildren) \<Rightarrow>
                      if pathOf xs \<in> set parentChildren then m(pathOf xs \<mapsto> (Some (last xs), []))
                      else (m(pathOf xs \<mapsto> (Some (last xs), [])))
                             (pathOf (butlast xs) \<mapsto> (parentName, parentChildren @ [pathOf xs]))
                  | None \<Rightarrow> m(pathOf xs \<mapsto> (Some (last xs), []))))"
proof -
  have nr: "pathOf xs \<noteq> ''/''" using assms pathOf_eq_root by simp
  have pp: "pathParts (pathOf xs) = xs" using assms(1) by simp
  have par: "(if length (butlast xs) = 0 then ''/'' else ''/'' @ js_join ''/'' (butlast xs))
               = pathOf (butlast xs)"
    by (cases "butlast xs") (simp_all add: pathOf_def)
  show ?thesis
    unfolding addFolder_def Let_def pp par using nr assms(2) by simp
qed

lemma fold_addFolder_invariant:
  assumes "\<forall>xs\<in>set xss. list_all validSegment xs"
    and "distinct xss"
    and "\<forall>i<length xss. xss ! i \<noteq> [] \<longrightarrow> butlast (xss ! i) = [] \<or> butlast (xss ! i) \<in> set (take i xss)"
  shows "dom (fold addFolder (map pathOf xss) rootMap) = pathOf ` insert [] (set xss)
       \<and> (\<forall>ys\<in>insert [] (set xss).
             \<exists>nm. fold addFolder (map pathOf xss) rootMap (pathOf ys) = Some (nm, childPaths xss ys))"
  using assms
proof (induction xss rule: rev_induct)
  case Nil
  then show ?case by (auto simp: rootMap_def childPaths_def split: if_splits)
next
  case (snoc x xss)
  let ?m = "fold addFolder (map pathOf xss) rootMap"
  have valid: "\<forall>xs\<in>set xss. list_all validSegment xs" and vx: "list_all validSegment x"
    using snoc.prems(1) by simp_all
  have dist: "distinct xss" and xnew: "x \<notin> set xss" using snoc.prems(2) by simp_all
  have order: "\<forall>i<length xss. xss ! i \<noteq> [] \<longrightarrow> butlast (xss ! i) = [] \<or> butlast (xss ! i) \<in> set (take i xss)"
  proof (intro allI impI)
    fix i assume i: "i < length xss" and ne: "xss ! i \<noteq> []"
    from snoc.prems(3) i have "(xss @ [x]) ! i \<noteq> [] \<longrightarrow>
        butlast ((xss @ [x]) ! i) = [] \<or> butlast ((xss @ [x]) ! i) \<in> set (take i (xss @ [x]))"
      by simp
    with i ne show "butlast (xss ! i) = [] \<or> butlast (xss ! i) \<in> set (take i xss)"
      by (simp add: nth_append)
  qed
  from snoc.IH [OF valid dist order]
  have dom: "dom ?m = pathOf ` insert [] (set xss)"
    and ch: "\<forall>ys\<in>insert [] (set xss). \<exists>nm. ?m (pathOf ys) = Some (nm, childPaths xss ys)"
    by blast+
  have validS: "list_all validSegment ys" if "ys \<in> insert [] (set xss)" for ys
    using that valid by auto
  have fold_snoc: "fold addFolder (map pathOf (xss @ [x])) rootMap = addFolder (pathOf x) ?m"
    by simp
  show ?case
  proof (cases "x = []")
    case True
    have "addFolder (pathOf x) ?m = ?m" using True by (simp add: addFolder_def)
    moreover have "childPaths (xss @ [x]) ys = childPaths xss ys" for ys
      using True by (simp add: childPaths_def)
    moreover have "insert [] (set (xss @ [x])) = insert [] (set xss)" using True by auto
    ultimately show ?thesis using dom ch fold_snoc by simp
  next
    case False
    let ?p = "pathOf x"
    let ?q = "butlast x"
    have fresh: "?m ?p = None"
    proof (rule ccontr)
      assume "?m ?p \<noteq> None"
      then have "?p \<in> dom ?m" by (rule domIff [THEN iffD2])
      then have "?p \<in> pathOf ` insert [] (set xss)" by (simp only: dom)
      then obtain y where y: "y \<in> insert [] (set xss)" "?p = pathOf y" by blast
      with pathOf_inject [OF vx validS [OF y(1)]] have "x = y" by simp
      with y(1) False xnew show False by auto
    qed
    have q: "?q \<in> insert [] (set xss)"
    proof -
      from snoc.prems(3) have "(xss @ [x]) ! length xss \<noteq> [] \<longrightarrow>
          butlast ((xss @ [x]) ! length xss) = []
          \<or> butlast ((xss @ [x]) ! length xss) \<in> set (take (length xss) (xss @ [x]))"
        by (metis length_append_singleton lessI)
      with False show ?thesis by simp
    qed
    from ch q obtain nmq where mq: "?m (pathOf ?q) = Some (nmq, childPaths xss ?q)" by blast
    have vq: "list_all validSegment ?q" by (rule validSegment_butlast [OF vx])
    have qx: "?q \<noteq> x" using False by (metis append_butlast_last_id append_self_conv list.distinct(1))
    have pq: "pathOf ?q \<noteq> ?p" using pathOf_inject [OF vq vx] qx by simp
    have notchild: "?p \<notin> set (childPaths xss ys)" for ys
    proof
      assume "?p \<in> set (childPaths xss ys)"
      then obtain z where z: "z \<in> set xss" "?p = pathOf z" by (auto simp: childPaths_def)
      with pathOf_inject [OF vx] valid have "x = z" by auto
      with z(1) xnew show False by simp
    qed
    let ?m' = "(?m(?p \<mapsto> (Some (last x), [])))(pathOf ?q \<mapsto> (nmq, childPaths xss ?q @ [?p]))"
    have step: "addFolder ?p ?m = ?m'"
      using addFolder_pathOf [OF vx False, of ?m] fresh mq pq notchild [of ?q] by simp
    have dom': "dom ?m' = pathOf ` insert [] (set (xss @ [x]))"
      using dom q by auto
    have nochild: "\<not> (z \<noteq> [] \<and> butlast z = x)" if "z \<in> set xss" for z
    proof
      assume a: "z \<noteq> [] \<and> butlast z = x"
      from that obtain i where i: "i < length xss" "xss ! i = z" by (auto simp: in_set_conv_nth)
      with order a have "butlast z = [] \<or> butlast z \<in> set (take i xss)" by auto
      with a False have "x \<in> set (take i xss)" by simp
      then have "x \<in> set xss" by (rule in_set_takeD)
      with xnew show False by simp
    qed
    have ch': "\<exists>nm. ?m' (pathOf ys) = Some (nm, childPaths (xss @ [x]) ys)"
      if ys: "ys \<in> insert [] (set (xss @ [x]))" for ys
    proof -
      consider "ys = x" | "ys = ?q" | "ys \<noteq> x" "ys \<noteq> ?q" by blast
      then show ?thesis
      proof cases
        case 1
        have "filter (\<lambda>z. z \<noteq> [] \<and> butlast z = x) xss = []"
          using nochild by (auto simp: filter_empty_conv)
        then have "childPaths (xss @ [x]) x = []"
          using qx by (simp add: childPaths_def)
        with 1 pq show ?thesis by simp
      next
        case 2
        have "childPaths (xss @ [x]) ?q = childPaths xss ?q @ [?p]"
          using False by (simp add: childPaths_def)
        with 2 show ?thesis by simp
      next
        case 3
        with ys have ys': "ys \<in> insert [] (set xss)" by auto
        have vy: "list_all validSegment ys" by (rule validS [OF ys'])
        have "pathOf ys \<noteq> ?p" using pathOf_inject [OF vy vx] 3(1) by simp
        moreover have "pathOf ys \<noteq> pathOf ?q" using pathOf_inject [OF vy vq] 3(2) by simp
        moreover have "childPaths (xss @ [x]) ys = childPaths xss ys"
          using 3(2) by (auto simp: childPaths_def)
        moreover from ch ys' obtain nm where "?m (pathOf ys) = Some (nm, childPaths xss ys)" by blast
        ultimately show ?thesis by simp
      qed
    qed
    from dom' ch' show ?thesis unfolding fold_snoc step by blast
  qed
qed

section \<open>Reading the tree from the store\<close>

lemma those_map_Some:
  "\<forall>c\<in>set cs. f c \<noteq> None \<Longrightarrow> those (map f cs) = Some (map (\<lambda>c. the (f c)) cs)"
  by (induction cs) auto

lemma distinct_concat_map:
  assumes "distinct xs"
    and "\<forall>x\<in>set xs. distinct (g x)"
    and "\<forall>x\<in>set xs. \<forall>y\<in>set xs. x \<noteq> y \<longrightarrow> set (g x) \<inter> set (g y) = {}"
  shows "distinct (concat (map g xs))"
  using assms
proof (induction xs)
  case Nil
  then show ?case by simp
next
  case (Cons x xs)
  have "set (g x) \<inter> set (concat (map g xs)) = {}"
  proof -
    have "set (g x) \<inter> set (g y) = {}" if "y \<in> set xs" for y
      using Cons.prems(1,3) that by auto
    then show ?thesis by auto
  qed
  moreover have "distinct (concat (map g xs))"
    using Cons by simp
  ultimately show ?case using Cons.prems(2) by simp
qed

lemma readFolder_tree:
  assumes valid: "\<forall>xs\<in>set xss. list_all validSegment xs"
    and dist: "distinct xss"
    and closed: "\<forall>x\<in>insert [] (set xss). \<forall>y. prefix y x \<longrightarrow> y \<in> insert [] (set xss)"
    and store: "\<forall>ys\<in>insert [] (set xss). \<exists>nm. m (pathOf ys) = Some (nm, childPaths xss ys)"
  shows "ys \<in> insert [] (set xss) \<Longrightarrow>
         \<forall>x\<in>insert [] (set xss). prefix ys x \<longrightarrow> length x < length ys + n \<Longrightarrow>
         \<exists>t. readFolder n m (pathOf ys) = Some t
            \<and> folder_path t = pathOf ys
            \<and> (\<forall>nm. m (pathOf ys) = Some (nm, childPaths xss ys) \<longrightarrow> folder_name t = nm)
            \<and> distinct (folderPaths t)
            \<and> set (folderPaths t) = pathOf ` {x \<in> insert [] (set xss). prefix ys x}"
proof (induction n arbitrary: ys)
  case 0
  then have "length ys < length ys + 0" by blast
  then show ?case by simp
next
  case (Suc n)
  let ?S = "insert [] (set xss)"
  let ?D = "\<lambda>x. {z \<in> ?S. prefix x z}"
  let ?kids = "filter (\<lambda>x. x \<noteq> [] \<and> butlast x = ys) xss"
  let ?T = "\<lambda>x. the (readFolder n m (pathOf x))"
  have validS: "list_all validSegment x" if "x \<in> ?S" for x using that valid by auto
  from store Suc.prems(1) obtain nm where nm: "m (pathOf ys) = Some (nm, childPaths xss ys)"
    by blast
  have kid: "x \<in> ?S \<and> x = ys @ [last x]" if "x \<in> set ?kids" for x
    using that by (auto intro: append_butlast_last_id [symmetric])
  have sub: "\<exists>t. readFolder n m (pathOf x) = Some t
            \<and> folder_path t = pathOf x
            \<and> distinct (folderPaths t)
            \<and> set (folderPaths t) = pathOf ` ?D x" if x: "x \<in> set ?kids" for x
  proof -
    from kid [OF x] have xs: "x \<in> ?S" and xe: "x = ys @ [last x]" by blast+
    have "\<forall>z\<in>?S. prefix x z \<longrightarrow> length z < length x + n"
    proof (intro ballI impI)
      fix z assume z: "z \<in> ?S" "prefix x z"
      have "prefix ys x" using xe by (metis prefixI)
      from this z(2) have "prefix ys z" by (rule prefix_order.trans)
      with Suc.prems(2) z(1) have "length z < length ys + Suc n" by blast
      moreover have "length x = Suc (length ys)" using xe by (metis length_append_singleton)
      ultimately show "length z < length x + n" by simp
    qed
    from Suc.IH [OF xs this] show ?thesis by blast
  qed
  have T: "readFolder n m (pathOf x) = Some (?T x)" if "x \<in> set ?kids" for x
  proof -
    from sub [OF that] obtain t where "readFolder n m (pathOf x) = Some t" by blast
    then show ?thesis by simp
  qed
  have "\<forall>c\<in>set (childPaths xss ys). readFolder n m c \<noteq> None"
    using T by (auto simp: childPaths_def)
  from those_map_Some [OF this]
  have "those (map (readFolder n m) (childPaths xss ys)) = Some (map ?T ?kids)"
    by (simp add: childPaths_def comp_def)
  with nm have read: "readFolder (Suc n) m (pathOf ys) = Some (Folder nm (pathOf ys) (map ?T ?kids))"
    by simp
  have paths: "folderPaths (Folder nm (pathOf ys) (map ?T ?kids))
                 = pathOf ys # concat (map (\<lambda>x. folderPaths (?T x)) ?kids)"
    by (simp add: comp_def)
  have setT: "set (folderPaths (?T x)) = pathOf ` ?D x" and distT: "distinct (folderPaths (?T x))"
    if "x \<in> set ?kids" for x
  proof -
    from sub [OF that] obtain t where t: "readFolder n m (pathOf x) = Some t"
      "distinct (folderPaths t)" "set (folderPaths t) = pathOf ` ?D x" by blast
    from t(1) have "?T x = t" by simp
    with t(2,3) show "set (folderPaths (?T x)) = pathOf ` ?D x" "distinct (folderPaths (?T x))"
      by simp_all
  qed
  have lenkid: "length x = Suc (length ys)" if "x \<in> set ?kids" for x
    using kid [OF that] by (metis length_append_singleton)
  have D: "?D ys = insert ys (\<Union>x\<in>set ?kids. ?D x)"
  proof (intro set_eqI iffI)
    fix z assume z: "z \<in> ?D ys"
    show "z \<in> insert ys (\<Union>x\<in>set ?kids. ?D x)"
    proof (cases "z = ys")
      case True
      then show ?thesis by simp
    next
      case False
      from z have zS: "z \<in> ?S" and pz: "prefix ys z" by auto
      from pz False obtain a r where zr: "z = ys @ a # r"
        by (metis append_Nil2 neq_Nil_conv prefix_def)
      let ?x = "ys @ [a]"
      have px: "prefix ?x z" using zr by (simp add: prefix_def)
      with closed zS have "?x \<in> ?S" by blast
      then have "?x \<in> set ?kids" by simp
      with px zS show ?thesis by blast
    qed
  next
    fix z assume "z \<in> insert ys (\<Union>x\<in>set ?kids. ?D x)"
    then consider "z = ys" | x where "x \<in> set ?kids" "z \<in> ?D x" by blast
    then show "z \<in> ?D ys"
    proof cases
      case 1
      with Suc.prems(1) show ?thesis by simp
    next
      case 2
      from kid [OF 2(1)] have "prefix ys x" by (metis prefixI)
      with 2(2) show ?thesis by (auto intro: prefix_order.trans)
    qed
  qed
  have set_eq: "set (folderPaths (Folder nm (pathOf ys) (map ?T ?kids))) = pathOf ` ?D ys"
  proof -
    have "set (folderPaths (Folder nm (pathOf ys) (map ?T ?kids)))
            = insert (pathOf ys) (\<Union>x\<in>set ?kids. pathOf ` ?D x)"
      unfolding paths using setT by auto
    also have "\<dots> = pathOf ` insert ys (\<Union>x\<in>set ?kids. ?D x)" by blast
    finally show ?thesis using D by simp
  qed
  have disj: "set (folderPaths (?T x)) \<inter> set (folderPaths (?T y)) = {}"
    if x: "x \<in> set ?kids" and y: "y \<in> set ?kids" and ne: "x \<noteq> y" for x y
  proof (rule ccontr)
    assume "set (folderPaths (?T x)) \<inter> set (folderPaths (?T y)) \<noteq> {}"
    then obtain p where "p \<in> set (folderPaths (?T x))" "p \<in> set (folderPaths (?T y))"
      by blast
    then have "p \<in> pathOf ` ?D x" "p \<in> pathOf ` ?D y"
      by (simp_all only: setT [OF x] setT [OF y])
    then obtain z z' where z: "z \<in> ?S" "prefix x z" "p = pathOf z"
      and z': "z' \<in> ?S" "prefix y z'" "p = pathOf z'" by blast
    from z(3) z'(3) pathOf_inject [OF validS [OF z(1)] validS [OF z'(1)]] have "z = z'" by simp
    with z(2) z'(2) have "prefix x z" "prefix y z" by simp_all
    then have "prefix x y \<or> prefix y x" by (rule prefix_same_cases)
    moreover have "length x = length y" using lenkid [OF x] lenkid [OF y] by simp
    ultimately have "x = y" by (auto simp: prefix_def)
    with ne show False by simp
  qed
  have root_fresh: "pathOf ys \<notin> set (concat (map (\<lambda>x. folderPaths (?T x)) ?kids))"
  proof
    assume "pathOf ys \<in> set (concat (map (\<lambda>x. folderPaths (?T x)) ?kids))"
    then obtain x where x: "x \<in> set ?kids" "pathOf ys \<in> set (folderPaths (?T x))" by auto
    from x(2) have "pathOf ys \<in> pathOf ` ?D x" by (simp only: setT [OF x(1)])
    then obtain z where z: "z \<in> ?S" "prefix x z" "pathOf ys = pathOf z" by blast
    from z(3) pathOf_inject [OF validS [OF Suc.prems(1)] validS [OF z(1)]] have "ys = z" by simp
    with z(2) have "length x \<le> length ys" by (auto simp: prefix_def)
    with lenkid [OF x(1)] show False by simp
  qed
  have "distinct ?kids" using dist by simp
  from distinct_concat_map [OF this, of "\<lambda>x. folderPaths (?T x)"] distT disj
  have "distinct (concat (map (\<lambda>x. folderPaths (?T x)) ?kids))" by blast
  with root_fresh have dist_all: "distinct (folderPaths (Folder nm (pathOf ys) (map ?T ?kids)))"
    unfolding paths by simp
  from read set_eq dist_all nm show ?case by auto
qed

section \<open>The folder tree\<close>

lemma addFolder_keeps_name:
  "m p = Some (nm, cs) \<Longrightarrow> \<exists>cs'. addFolder q m p = Some (nm, cs')"
  by (auto simp: addFolder_def Let_def split: option.splits)

lemma fold_addFolder_keeps_name:
  "m p = Some (nm, cs) \<Longrightarrow> \<exists>cs'. fold addFolder qs m p = Some (nm, cs')"
proof (induction qs arbitrary: m cs)
  case Nil
  then show ?case by simp
next
  case (Cons q qs)
  have "\<exists>cs'. addFolder q m p = Some (nm, cs')"
    using Cons.prems by (rule addFolder_keeps_name)
  then obtain cs' where "addFolder q m p = Some (nm, cs')"
    by blast
  then have "\<exists>cs''. fold addFolder qs (addFolder q m) p = Some (nm, cs'')"
    by (rule Cons.IH)
  then show ?case by simp
qed

lemma le_foldr_max: "a \<in> set l \<Longrightarrow> a \<le> foldr max l (0::nat)"
  by (induction l) auto

lemma pathOf_pathParts_candidate:
  "p \<in> pathOf ` candidateSegs files \<Longrightarrow> pathOf (pathParts p) = p"
  using candidateSegs_valid by auto

text \<open>
  C2. For every list of files (so for every set of object keys, empty or not),
  \<open>buildFolderStructure\<close> returns exactly one root node, with path \<open>/\<close>, and
  the paths of the nodes of the tree under it are pairwise different and are exactly the
  root and the paths of the parent chains of the file keys: every implied folder is a
  node, once, and nothing else is.
\<close>

theorem buildFolderStructure_tree:
  "\<exists>root. buildFolderStructure files = Some [root]
     \<and> folder_path root = ''/''
     \<and> folder_name root = Some ''Root''
     \<and> distinct (folderPaths root)
     \<and> set (folderPaths root)
         = insert ''/'' (\<Union>file\<in>set files. (\<lambda>p. ''/'' @ p) ` set (parentPaths (fileKey file)))"
proof -
  let ?depth = "\<lambda>p. length (js_split CHR ''/'' p)"
  let ?C = "candidateSegs files"
  define ps where "ps = sortedPaths files"
  define xss where "xss = map pathParts ps"
  have set_ps: "set ps = pathOf ` ?C"
    by (simp add: ps_def sortedPaths_def set_allPaths)
  have dist_ps: "distinct ps"
    by (simp add: ps_def sortedPaths_def distinct_allPaths)
  have sorted_ps: "sorted (map ?depth ps)"
    by (simp add: ps_def sortedPaths_def)
  have rebuilt: "map pathOf xss = ps"
  proof -
    have "map (\<lambda>p. pathOf (pathParts p)) ps = map (\<lambda>p. p) ps"
      using set_ps pathOf_pathParts_candidate [of _ files] by (intro map_cong) auto
    then show ?thesis by (simp add: xss_def comp_def)
  qed
  have set_xss: "set xss = ?C"
  proof -
    have r: "pathParts (pathOf x) = x" if "x \<in> ?C" for x
      using candidateSegs_valid [OF that] by simp
    have "set xss = pathParts ` pathOf ` ?C" by (simp add: xss_def set_ps)
    also have "\<dots> = (\<lambda>x. pathParts (pathOf x)) ` ?C" by (simp only: image_image)
    also have "\<dots> = (\<lambda>x. x) ` ?C" by (rule image_cong) (simp_all add: r)
    finally show ?thesis by simp
  qed
  have S: "insert [] (set xss) = ?C"
    by (simp only: set_xss insert_absorb [OF candidateSegs_Nil])
  have valid: "\<forall>xs\<in>set xss. list_all validSegment xs"
    using set_xss candidateSegs_valid by blast
  have dist: "distinct xss"
  proof -
    from dist_ps rebuilt have "distinct (map pathOf xss)" by simp
    then show ?thesis by (simp add: distinct_map)
  qed
  have len: "length xss = length ps" by (simp add: xss_def)
  have nth_ps: "ps ! i = pathOf (xss ! i)" if "i < length xss" for i
    using rebuilt that by (metis nth_map)
  have order: "\<forall>i<length xss. xss ! i \<noteq> [] \<longrightarrow>
      butlast (xss ! i) = [] \<or> butlast (xss ! i) \<in> set (take i xss)"
  proof (intro allI impI)
    fix i assume i: "i < length xss" and ne: "xss ! i \<noteq> []"
    let ?x = "xss ! i"
    show "butlast ?x = [] \<or> butlast ?x \<in> set (take i xss)"
    proof (cases "butlast ?x = []")
      case True
      then show ?thesis by simp
    next
      case False
      have xC: "?x \<in> ?C" using i set_xss by (metis nth_mem)
      then have "butlast ?x \<in> set xss" using candidateSegs_butlast set_xss by blast
      then obtain j where j: "j < length xss" "xss ! j = butlast ?x"
        by (auto simp: in_set_conv_nth)
      have vx: "list_all validSegment ?x" using valid i by simp
      have vq: "list_all validSegment (butlast ?x)" by (rule validSegment_butlast [OF vx])
      have di: "?depth (ps ! i) = Suc (length ?x)"
        using depth_pathOf [OF vx] ne nth_ps [OF i] by simp
      have dj: "?depth (ps ! j) = length ?x"
        using depth_pathOf [OF vq] False nth_ps [OF j(1)] j(2) ne by simp
      have "j < i"
      proof (rule ccontr)
        assume "\<not> j < i"
        then have "i \<le> j" by simp
        with sorted_ps j(1) len have "map ?depth ps ! i \<le> map ?depth ps ! j"
          by (simp add: sorted_iff_nth_mono)
        with i j(1) len di dj show False by simp
      qed
      then have "j < length (take i xss)" and "take i xss ! j = butlast ?x"
        using i j by simp_all
      then have "butlast ?x \<in> set (take i xss)" by (metis nth_mem)
      then show ?thesis by simp
    qed
  qed
  let ?m = "fold addFolder (map pathOf xss) rootMap"
  have m: "finalFolderMap files = ?m"
    by (simp add: finalFolderMap_def rebuilt ps_def)
  from fold_addFolder_invariant [OF valid dist order]
  have store: "\<forall>ys\<in>insert [] (set xss). \<exists>nm. ?m (pathOf ys) = Some (nm, childPaths xss ys)"
    by blast
  have closed: "\<forall>x\<in>insert [] (set xss). \<forall>y. prefix y x \<longrightarrow> y \<in> insert [] (set xss)"
    unfolding S using candidateSegs_prefix by blast
  let ?n = "foldr max (map ?depth ps) 0"
  have bound: "\<forall>x\<in>insert [] (set xss). prefix [] x \<longrightarrow> length x < length ([]::string list) + ?n"
  proof (intro ballI impI)
    fix x assume "x \<in> insert [] (set xss)"
    then have xC: "x \<in> ?C" using S by simp
    then have "pathOf x \<in> set ps" using set_ps by blast
    then have "?depth (pathOf x) \<le> ?n" by (intro le_foldr_max) simp
    moreover have "length x < ?depth (pathOf x)"
      using depth_pathOf [OF candidateSegs_valid [OF xC]] by (simp split: if_splits)
    ultimately show "length x < length ([]::string list) + ?n" by simp
  qed
  have rootS: "[] \<in> insert [] (set xss)" by simp
  from readFolder_tree [OF valid dist closed store rootS bound]
  obtain t where t: "readFolder ?n ?m (pathOf []) = Some t" "folder_path t = pathOf []"
    "\<forall>nm. ?m (pathOf []) = Some (nm, childPaths xss []) \<longrightarrow> folder_name t = nm"
    "distinct (folderPaths t)"
    "set (folderPaths t) = pathOf ` {x \<in> insert [] (set xss). prefix [] x}"
    by blast
  have "rootMap ''/'' = Some (Some ''Root'', [])" by (simp add: rootMap_def)
  then have "\<exists>cs'. ?m ''/'' = Some (Some ''Root'', cs')"
    by (rule fold_addFolder_keeps_name)
  then obtain cs' where cs': "?m ''/'' = Some (Some ''Root'', cs')" by blast
  from store rootS obtain nm where "?m (pathOf []) = Some (nm, childPaths xss [])" by blast
  with cs' t(3) have name: "folder_name t = Some ''Root''" by simp
  have build: "buildFolderStructure files = Some [t]"
    using t(1) m by (simp add: buildFolderStructure_def ps_def)
  have "{x \<in> insert [] (set xss). prefix [] x} = ?C" using S by auto
  with t(5) have "set (folderPaths t) = set (allPaths files)"
    by (simp add: set_allPaths)
  then have paths: "set (folderPaths t)
         = insert ''/'' (\<Union>file\<in>set files. (\<lambda>p. ''/'' @ p) ` set (parentPaths (fileKey file)))"
    by (simp only: set_allPaths_chains)
  from build t(2) name t(4) paths show ?thesis
    by (intro exI [of _ t]) simp
qed

theorem buildFolderStructure_tree_witness:
  "buildFolderStructure scenarioFiles
     = Some [Folder (Some ''Root'') ''/''
              [Folder (Some ''a'') ''/a''
                [Folder (Some ''b'') ''/a/b'' [Folder (Some ''c'') ''/a/b/c'' []]]]]
   \<and> distinct (folderPaths (Folder (Some ''Root'') ''/''
              [Folder (Some ''a'') ''/a''
                [Folder (Some ''b'') ''/a/b'' [Folder (Some ''c'') ''/a/b/c'' []]]]))"
proof -
  have e: "buildFolderStructure scenarioFiles
     = Some [Folder (Some ''Root'') ''/''
              [Folder (Some ''a'') ''/a''
                [Folder (Some ''b'') ''/a/b'' [Folder (Some ''c'') ''/a/b/c'' []]]]]"
    by code_simp
  from buildFolderStructure_tree [of scenarioFiles] obtain root
    where "buildFolderStructure scenarioFiles = Some [root]" "distinct (folderPaths root)"
    by blast
  with e show ?thesis by simp
qed

end
